theory Spec2Isabelle
  imports Main "HOL-Library.Monad_Syntax" "HOL-Library.Word"
begin

section \<open>container/queue: the block-circular FIFO\<close>

text \<open>
  The queue of \<^verbatim>\<open>container/queue/queue.go\<close>. The four indices are Go \<^verbatim>\<open>int\<close>s and are
  kept as \<^typ>\<open>int\<close>; they are bounded by the number of allocated slots, so the 64-bit
  wrap-around is out of reach. A slice \<^verbatim>\<open>[]interface{}\<close> is a reference to a backing
  array: the arrays live in an explicit memory, and \<^verbatim>\<open>blocks\<close>, \<^verbatim>\<open>head\<close> and \<^verbatim>\<open>tail\<close>
  hold addresses, so that \<^verbatim>\<open>head\<close> and \<^verbatim>\<open>blocks[headIdx]\<close> alias as they do in Go.
  A slot holds \<open>None\<close> for \<^verbatim>\<open>nil\<close>. Every operation returns an option: \<open>None\<close> is a
  run-time panic (index out of range, slice bounds out of range, division by zero).
\<close>

definition blockSize :: int where
  "blockSize = 4096"

type_synonym addr = nat
type_synonym 'a mem = "'a option list list"

record 'a Queue =
  tailIdx :: int
  headIdx :: int
  tailOff :: int
  headOff :: int
  blocks :: "addr list"
  head :: addr
  tail :: addr
  mem :: "'a mem"

text \<open>\<^verbatim>\<open>xs[i]\<close> on a slice: panics outside \<open>0 \<le> i < len(xs)\<close>.\<close>

definition index :: "'b list \<Rightarrow> int \<Rightarrow> 'b option" where
  "index xs i = (if 0 \<le> i \<and> i < int (length xs) then Some (xs ! nat i) else None)"

text \<open>Reading and writing slot \<open>i\<close> of the backing array at address \<open>a\<close>.\<close>

definition load :: "'a mem \<Rightarrow> addr \<Rightarrow> int \<Rightarrow> 'a option option" where
  "load m a i = (if a < length m then index (m ! a) i else None)"

definition store :: "'a mem \<Rightarrow> addr \<Rightarrow> int \<Rightarrow> 'a option \<Rightarrow> 'a mem option" where
  "store m a i v =
     (if a < length m \<and> 0 \<le> i \<and> i < int (length (m ! a))
      then Some (m[a := (m ! a)[nat i := v]]) else None)"

text \<open>\<^verbatim>\<open>make([]interface{}, blockSize)\<close>: a fresh array of \<^verbatim>\<open>nil\<close>s at a new address.\<close>

definition make_block :: "'a mem \<Rightarrow> addr \<times> 'a mem" where
  "make_block m = (length m, m @ [replicate (nat blockSize) None])"

text \<open>Go's \<^verbatim>\<open>%\<close> on \<^verbatim>\<open>int\<close>: truncated, the sign of the dividend; panics on a zero divisor.\<close>

definition go_rem :: "int \<Rightarrow> int \<Rightarrow> int option" where
  "go_rem a b = (if b = 0 then None else Some (sgn a * (\<bar>a\<bar> mod \<bar>b\<bar>)))"

definition New :: "'a Queue" where
  "New = (case make_block [] of (b, m) \<Rightarrow>
     \<lparr>tailIdx = 0, headIdx = 0, tailOff = 0, headOff = 0,
      blocks = [b], head = b, tail = b, mem = m\<rparr>)"

text \<open>
  Lines 61 to 67 of \<^verbatim>\<open>Push\<close>: a buffer one longer than \<^verbatim>\<open>blocks\<close>, the blocks below
  \<^verbatim>\<open>tailIdx\<close> copied in place, a fresh block at \<^verbatim>\<open>tailIdx\<close>, the others copied one
  position up; then \<^verbatim>\<open>headIdx++\<close> and \<^verbatim>\<open>head\<close> re-read.
\<close>

definition insert_block :: "'a Queue \<Rightarrow> 'a Queue option" where
  "insert_block q =
     (if 0 \<le> tailIdx q \<and> tailIdx q \<le> int (length (blocks q)) then
        (case make_block (mem q) of (b, m) \<Rightarrow>
           let buffer = take (nat (tailIdx q)) (blocks q) @ [b] @ drop (nat (tailIdx q)) (blocks q);
               q1 = q\<lparr>mem := m, blocks := buffer, headIdx := headIdx q + 1\<rparr>
           in do {
             h \<leftarrow> index (blocks q1) (headIdx q1);
             Some (q1\<lparr>head := h\<rparr>)
           })
      else None)"

definition Push :: "'a Queue \<Rightarrow> 'a \<Rightarrow> 'a Queue option" where
  "Push q data = do {
     m \<leftarrow> store (mem q) (tail q) (tailOff q) (Some data);
     let q1 = q\<lparr>mem := m, tailOff := tailOff q + 1\<rparr>;
     if tailOff q1 = blockSize then do {
       i \<leftarrow> go_rem (tailIdx q1 + 1) (int (length (blocks q1)));
       let q2 = q1\<lparr>tailOff := 0, tailIdx := i\<rparr>;
       q3 \<leftarrow> (if tailIdx q2 = headIdx q2 then insert_block q2 else Some q2);
       t \<leftarrow> index (blocks q3) (tailIdx q3);
       Some (q3\<lparr>tail := t\<rparr>)
     } else Some q1
   }"

definition Pop :: "'a Queue \<Rightarrow> ('a option \<times> 'a Queue) option" where
  "Pop q = do {
     res \<leftarrow> load (mem q) (head q) (headOff q);
     m \<leftarrow> store (mem q) (head q) (headOff q) None;
     let q1 = q\<lparr>mem := m, headOff := headOff q + 1\<rparr>;
     if headOff q1 = blockSize then do {
       i \<leftarrow> go_rem (headIdx q1 + 1) (int (length (blocks q1)));
       let q2 = q1\<lparr>headOff := 0, headIdx := i\<rparr>;
       h \<leftarrow> index (blocks q2) (headIdx q2);
       Some (res, q2\<lparr>head := h\<rparr>)
     } else Some (res, q1)
   }"

definition Front :: "'a Queue \<Rightarrow> 'a option option" where
  "Front q = load (mem q) (head q) (headOff q)"

definition Empty :: "'a Queue \<Rightarrow> bool" where
  "Empty q = (headIdx q = tailIdx q \<and> headOff q = tailOff q)"

definition Size :: "'a Queue \<Rightarrow> int" where
  "Size q =
     (if tailIdx q > headIdx q then
        (tailIdx q - headIdx q) * blockSize - headOff q + tailOff q
      else if tailIdx q < headIdx q then
        (int (length (blocks q)) - headIdx q + tailIdx q) * blockSize - headOff q + tailOff q
      else tailOff q - headOff q)"

text \<open>
  The nested iteration of \<^verbatim>\<open>Reset\<close>: every slot \<open>0 \<le> i < len(block)\<close> of every block of
  \<^verbatim>\<open>blocks\<close> is set to \<^verbatim>\<open>nil\<close>. The inner index runs below \<^verbatim>\<open>len(block)\<close> by the loop
  condition, so the only access that can panic is \<^verbatim>\<open>q.blocks[0]\<close>.
\<close>

definition clear_block :: "'a mem \<Rightarrow> addr \<Rightarrow> 'a mem" where
  "clear_block m a = m[a := replicate (length (m ! a)) None]"

definition Reset :: "'a Queue \<Rightarrow> 'a Queue option" where
  "Reset q = do {
     let q1 = q\<lparr>headIdx := 0, tailIdx := 0, headOff := 0, tailOff := 0\<rparr>;
     h \<leftarrow> index (blocks q1) 0;
     t \<leftarrow> index (blocks q1) 0;
     Some (q1\<lparr>head := h, tail := t, mem := fold (\<lambda>a m. clear_block m a) (blocks q1) (mem q1)\<rparr>)
   }"

section \<open>proto/link: the encrypted link\<close>

text \<open>
  The framing half of \<^verbatim>\<open>proto/link/link.go\<close>: \<^verbatim>\<open>New\<close>, \<^verbatim>\<open>makeHalfDuplex\<close>,
  \<^verbatim>\<open>SendDirect\<close>, \<^verbatim>\<open>RecvDirect\<close> and the sender worker. The link state is passed
  explicitly and returned updated. A Go \<^verbatim>\<open>error\<close> is its message text; \<open>None\<close> is
  \<^verbatim>\<open>nil\<close>. Bytes are 8-bit words.
\<close>

type_synonym byte = "8 word"
type_synonym bytes = "byte list"
type_synonym error = string

subsection \<open>Collaborators outside the link\<close>

text \<open>
  Modelled from the spec: \<^verbatim>\<open>proto.Message\<close>, whose declaration is not among the sources.
  The spec gives it a header \<^verbatim>\<open>Head\<close>, a payload \<^verbatim>\<open>Data\<close> and a flag "secure", read by
  \<^verbatim>\<open>Secure()\<close> and set by \<^verbatim>\<open>KnownSecure()\<close>. The header is opaque to the link but
  for its \<^verbatim>\<open>Meta\<close> field, an \<^verbatim>\<open>interface{}\<close> that is \<^verbatim>\<open>nil\<close>, the link's close packet or a
  record of an upper layer; the other header fields are kept as one opaque value.
\<close>

datatype 'm Meta = NilMeta | ClosePacket | UpperMeta 'm

record ('m, 'x) Header =
  Meta :: "'m Meta"
  Rest :: 'x

record 'h Message =
  Head :: 'h
  Data :: bytes
  secure :: bool

definition Secure :: "'h Message \<Rightarrow> bool" where
  "Secure msg = secure msg"

definition KnownSecure :: "'h Message \<Rightarrow> 'h Message" where
  "KnownSecure msg = msg\<lparr>secure := True\<rparr>"

text \<open>
  Modelled from the spec: the framed transport \<^verbatim>\<open>stream.Stream\<close> (section 6 of the spec),
  of which the sources hold only the calls. \<^verbatim>\<open>Send\<close> enqueues one frame, \<^verbatim>\<open>Flush\<close>
  commits the enqueued frames to the wire, \<^verbatim>\<open>Recv\<close> takes the next arrived frame; each
  may fail, and the error is returned to the caller. The failures are scripted: every call
  consumes the head of \<open>faults\<close> and fails with the error found there, if any; with the
  script used up every call succeeds. \<^verbatim>\<open>Recv\<close> with no frame left fails (the peer is gone
  or the deadline has passed) instead of blocking.
\<close>

record Stream =
  outq :: "bytes list"
  wire :: "bytes list"
  inq :: "bytes list"
  faults :: "error option list"

definition next_fault :: "Stream \<Rightarrow> error option \<times> Stream" where
  "next_fault s = (case faults s of [] \<Rightarrow> (None, s) | f # fs \<Rightarrow> (f, s\<lparr>faults := fs\<rparr>))"

definition stream_Send :: "Stream \<Rightarrow> bytes \<Rightarrow> error option \<times> Stream" where
  "stream_Send s frame =
     (case next_fault s of
        (Some e, s1) \<Rightarrow> (Some e, s1)
      | (None, s1) \<Rightarrow> (None, s1\<lparr>outq := outq s1 @ [frame]\<rparr>))"

definition stream_Flush :: "Stream \<Rightarrow> error option \<times> Stream" where
  "stream_Flush s =
     (case next_fault s of
        (Some e, s1) \<Rightarrow> (Some e, s1)
      | (None, s1) \<Rightarrow> (None, s1\<lparr>wire := wire s1 @ outq s1, outq := []\<rparr>))"

definition stream_Recv :: "Stream \<Rightarrow> (error + bytes) \<times> Stream" where
  "stream_Recv s =
     (case next_fault s of
        (Some e, s1) \<Rightarrow> (Inl e, s1)
      | (None, s1) \<Rightarrow>
          (case inq s1 of
             [] \<Rightarrow> (Inl ''EOF'', s1)
           | frame # frames \<Rightarrow> (Inr frame, s1\<lparr>inq := frames\<rparr>)))"

text \<open>
  \<^verbatim>\<open>cipher.Stream\<close> of the Go library: a key stream and the position reached in it.
  \<^verbatim>\<open>XORKeyStream\<close> combines each byte with the next byte of the key stream and advances
  by the length of the data.
\<close>

record CipherStream =
  keystream :: "nat \<Rightarrow> byte"
  pos :: nat

definition XORKeyStream :: "CipherStream \<Rightarrow> bytes \<Rightarrow> bytes \<times> CipherStream" where
  "XORKeyStream c src =
     (map (\<lambda>i. xor (src ! i) (keystream c (pos c + i))) [0..<length src],
      c\<lparr>pos := pos c + length src\<rparr>)"

text \<open>
  \<^verbatim>\<open>hash.Hash\<close> as returned by \<^verbatim>\<open>hmac.New\<close>: the keyed digest function and the bytes
  written so far. \<^verbatim>\<open>Write\<close> appends, \<^verbatim>\<open>Sum(nil)\<close> is the digest of all bytes written and
  leaves the state alone.
\<close>

record Macer =
  keyed :: "bytes \<Rightarrow> bytes"
  written :: bytes

definition mac_Write :: "Macer \<Rightarrow> bytes \<Rightarrow> Macer" where
  "mac_Write m b = m\<lparr>written := written m @ b\<rparr>"

definition mac_Sum :: "Macer \<Rightarrow> bytes" where
  "mac_Sum m = keyed m (written m)"

text \<open>
  \<^verbatim>\<open>encoding/gob\<close>, opaque to the link. An encoder and a decoder carry state from one
  value to the next. \<^verbatim>\<open>Encode\<close> returns its error, the bytes it wrote to the buffer it
  was created on and its next state; \<^verbatim>\<open>Decode\<close> is given the contents of its buffer and
  returns the header or its error, the bytes it left unread and its next state.
\<close>

record ('h, 'e, 'd) Gob =
  Encode :: "'e \<Rightarrow> 'h \<Rightarrow> error option \<times> bytes \<times> 'e"
  Decode :: "'d \<Rightarrow> bytes \<Rightarrow> (error + 'h) \<times> bytes \<times> 'd"
  NewEncoder :: 'e
  NewDecoder :: 'd

text \<open>
  The package \<^verbatim>\<open>config\<close> and the constructors of the Go library used by
  \<^verbatim>\<open>makeHalfDuplex\<close>, taken as parameters: the key length in bits, the block cipher made
  from a key (or its error), its block size, the key stream of \<^verbatim>\<open>cipher.NewCTR\<close> for a
  block cipher and an IV, the digest size of the session hash, and the keyed digest
  \<^verbatim>\<open>hmac.New(config.SessionHash, salt)\<close>.
\<close>

record 'blk Config =
  SessionCipherBits :: nat
  SessionCipher :: "bytes \<Rightarrow> error + 'blk"
  BlockSize :: "'blk \<Rightarrow> nat"
  NewCTR :: "'blk \<Rightarrow> bytes \<Rightarrow> nat \<Rightarrow> byte"
  SessionHashSize :: nat
  hmac_New :: "bytes \<Rightarrow> bytes \<Rightarrow> bytes"

text \<open>
  \<^verbatim>\<open>bytes.Equal\<close> as the portable code of the Go library has it: unequal lengths are
  unequal, otherwise the bytes are compared from the front and the loop returns at the
  first pair that differs. The second component counts the byte comparisons made.
\<close>

fun equal_loop :: "bytes \<Rightarrow> bytes \<Rightarrow> bool \<times> nat" where
  "equal_loop (x # xs) (y # ys) =
     (if x \<noteq> y then (False, 1) else (case equal_loop xs ys of (r, n) \<Rightarrow> (r, Suc n)))"
| "equal_loop _ _ = (True, 0)"

definition bytes_Equal_steps :: "bytes \<Rightarrow> bytes \<Rightarrow> bool \<times> nat" where
  "bytes_Equal_steps a b = (if length a \<noteq> length b then (False, 0) else equal_loop a b)"

definition bytes_Equal :: "bytes \<Rightarrow> bytes \<Rightarrow> bool" where
  "bytes_Equal a b = fst (bytes_Equal_steps a b)"

text \<open>\<^verbatim>\<open>%v\<close> of \<^verbatim>\<open>fmt\<close> on a byte slice: the decimal values in brackets, one space apart.\<close>

definition digit :: "nat \<Rightarrow> char" where
  "digit n = ''0123456789'' ! n"

definition decimal :: "nat \<Rightarrow> string" where
  "decimal n =
     (if n < 10 then [digit n]
      else if n < 100 then [digit (n div 10), digit (n mod 10)]
      else [digit (n div 100), digit (n div 10 mod 10), digit (n mod 10)])"

fun spaced :: "string list \<Rightarrow> string" where
  "spaced [] = []"
| "spaced [x] = x"
| "spaced (x # y # zs) = x @ '' '' @ spaced (y # zs)"

definition fmt_v :: "bytes \<Rightarrow> string" where
  "fmt_v b = ''['' @ spaced (map (\<lambda>x. decimal (unat x)) b) @ '']''"

subsection \<open>The link\<close>

text \<open>
  The fields of \<^verbatim>\<open>Link\<close> that the framing code touches. The four channels belong to
  the workers; what a worker receives from them is an argument of its model below.
\<close>

record ('e, 'd) Link =
  socket :: Stream
  inCipher :: CipherStream
  outCipher :: CipherStream
  inMacer :: Macer
  outMacer :: Macer
  inBuffer :: bytes
  outBuffer :: bytes
  inCoder :: 'd
  outCoder :: 'e
  inHeadBuf :: bytes
  inMacBuf :: bytes

text \<open>
  \<^verbatim>\<open>io.ReadFull(hkdf, buf)\<close> on the key-derivation stream, a sequence of bytes: exactly
  \<open>n\<close> bytes or a failure. Every failure in \<^verbatim>\<open>makeHalfDuplex\<close> panics: \<open>None\<close>.
\<close>

definition ReadFull :: "bytes \<Rightarrow> nat \<Rightarrow> (bytes \<times> bytes) option" where
  "ReadFull hkdf n = (if length hkdf < n then None else Some (take n hkdf, drop n hkdf))"

definition makeHalfDuplex ::
  "'blk Config \<Rightarrow> bytes \<Rightarrow> ((CipherStream \<times> Macer) \<times> bytes) option" where
  "makeHalfDuplex cfg hkdf = do {
     (key, hkdf1) \<leftarrow> ReadFull hkdf (SessionCipherBits cfg div 8);
     block \<leftarrow> (case SessionCipher cfg key of Inl e \<Rightarrow> None | Inr b \<Rightarrow> Some b);
     (iv, hkdf2) \<leftarrow> ReadFull hkdf1 (BlockSize cfg block);
     let stream = \<lparr>keystream = NewCTR cfg block iv, pos = 0\<rparr>;
     (salt, hkdf3) \<leftarrow> ReadFull hkdf2 (SessionHashSize cfg);
     let mac = \<lparr>keyed = hmac_New cfg salt, written = []\<rparr>;
     Some ((stream, mac), hkdf3)
   }"

text \<open>
  \<^verbatim>\<open>New\<close> of the link (the queue has a \<^verbatim>\<open>New\<close> of its own). The reader is shared by
  the two calls of \<^verbatim>\<open>makeHalfDuplex\<close>, so the second reads on where the first stopped;
  what is left of the stream is returned with the link.
\<close>

definition New_Link ::
  "'blk Config \<Rightarrow> ('h, 'e, 'd) Gob \<Rightarrow> Stream \<Rightarrow> bytes \<Rightarrow> bool \<Rightarrow> (('e, 'd) Link \<times> bytes) option" where
  "New_Link cfg gob conn hkdf server = do {
     ((sc, sm), hkdf1) \<leftarrow> makeHalfDuplex cfg hkdf;
     ((cc, cm), hkdf2) \<leftarrow> makeHalfDuplex cfg hkdf1;
     let l = \<lparr>socket = conn,
              inCipher = (if server then cc else sc), outCipher = (if server then sc else cc),
              inMacer = (if server then cm else sm), outMacer = (if server then sm else cm),
              inBuffer = [], outBuffer = [],
              inCoder = NewDecoder gob, outCoder = NewEncoder gob,
              inHeadBuf = [], inMacBuf = []\<rparr>;
     Some (l, hkdf2)
   }"

text \<open>
  \<^verbatim>\<open>SendDirect\<close>. The deferred \<^verbatim>\<open>outBuffer.Reset()\<close> is registered after the encoding
  and the encryption, so it runs on every return from there on and on none before.
\<close>

definition SendDirect ::
  "('h, 'e, 'd) Gob \<Rightarrow> ('e, 'd) Link \<Rightarrow> 'h Message \<Rightarrow> error option \<times> ('e, 'd) Link" where
  "SendDirect gob l msg =
     (if \<not> Secure msg \<and> length (Data msg) > 0 then
        (Some ''unsecured data, send denied'', l)
      else
        (case Encode gob (outCoder l) (Head msg) of (err, out, enc) \<Rightarrow>
           let l1 = l\<lparr>outCoder := enc, outBuffer := outBuffer l @ out\<rparr> in
           (case err of
              Some e \<Rightarrow> (Some e, l1)
            | None \<Rightarrow>
                (case XORKeyStream (outCipher l1) (outBuffer l1) of (ct, c) \<Rightarrow>
                   let l2 = l1\<lparr>outCipher := c, outBuffer := ct\<rparr>;
                       l3 = l2\<lparr>outMacer := mac_Write (mac_Write (outMacer l2) (outBuffer l2)) (Data msg)\<rparr>
                   in
                   (case stream_Send (socket l3) (outBuffer l3) of
                      (Some e, s1) \<Rightarrow> (Some e, l3\<lparr>socket := s1, outBuffer := []\<rparr>)
                    | (None, s1) \<Rightarrow>
                        (case stream_Send s1 (Data msg) of
                           (Some e, s2) \<Rightarrow> (Some e, l3\<lparr>socket := s2, outBuffer := []\<rparr>)
                         | (None, s2) \<Rightarrow>
                             (case stream_Send s2 (mac_Sum (outMacer l3)) of
                                (Some e, s3) \<Rightarrow> (Some e, l3\<lparr>socket := s3, outBuffer := []\<rparr>)
                              | (None, s3) \<Rightarrow>
                                  (case stream_Flush s3 of
                                     (err, s4) \<Rightarrow> (err, l3\<lparr>socket := s4, outBuffer := []\<rparr>)))))))))"

definition RecvDirect ::
  "('h, 'e, 'd) Gob \<Rightarrow> ('e, 'd) Link \<Rightarrow> (error + 'h Message) \<times> ('e, 'd) Link" where
  "RecvDirect gob l =
     (case stream_Recv (socket l) of
        (Inl e, s1) \<Rightarrow> (Inl e, l\<lparr>socket := s1\<rparr>)
      | (Inr head_frame, s1) \<Rightarrow>
          let l1 = l\<lparr>socket := s1, inHeadBuf := head_frame\<rparr> in
          (case stream_Recv (socket l1) of
             (Inl e, s2) \<Rightarrow> (Inl e, l1\<lparr>socket := s2\<rparr>)
           | (Inr data, s2) \<Rightarrow>
               (case stream_Recv s2 of
                  (Inl e, s3) \<Rightarrow> (Inl e, l1\<lparr>socket := s3\<rparr>)
                | (Inr mac_frame, s3) \<Rightarrow>
                    let l2 = l1\<lparr>socket := s3, inMacBuf := mac_frame\<rparr>;
                        l3 = l2\<lparr>inMacer := mac_Write (mac_Write (inMacer l2) (inHeadBuf l2)) data\<rparr>
                    in
                    if \<not> bytes_Equal (inMacBuf l3) (mac_Sum (inMacer l3)) then
                      (Inl (''mac mismatch: have '' @ fmt_v (mac_Sum (inMacer l3)) @
                            '', want '' @ fmt_v (inMacBuf l3) @ ''.''), l3)
                    else
                      (case XORKeyStream (inCipher l3) (inHeadBuf l3) of (pt, c) \<Rightarrow>
                         let l4 = l3\<lparr>inCipher := c, inHeadBuf := pt, inBuffer := inBuffer l3 @ pt\<rparr> in
                         (case Decode gob (inCoder l4) (inBuffer l4) of (res, rest, dec) \<Rightarrow>
                            let l5 = l4\<lparr>inCoder := dec, inBuffer := rest\<rparr> in
                            (case res of
                               Inl e \<Rightarrow> (Inl e, l5)
                             | Inr h \<Rightarrow> (Inr (KnownSecure \<lparr>Head = h, Data = data, secure = False\<rparr>), l5)))))))"

subsection \<open>The sender worker\<close>

text \<open>
  \<^verbatim>\<open>sender\<close> runs beside the application, which fills the channel \<^verbatim>\<open>Send\<close>, and beside
  \<^verbatim>\<open>Close\<close>, which sends the shutdown request. The model is given what the worker
  receives: \<open>evs\<close>, what the \<^verbatim>\<open>select\<close> of the main loop yields, one event for each
  turn of the loop, and \<open>pending\<close>, the messages that the non-blocking receives of the
  flush loop find in \<^verbatim>\<open>Send\<close> before they find it empty. The result is the error handed
  to the reply channel, the link, and the messages passed to \<^verbatim>\<open>SendDirect\<close>, in the order
  of the calls. A worker whose main loop is left with no event waits forever: \<open>None\<close>.
\<close>

datatype 'h event = Quit | Msg "'h Message"

definition closeMessage :: "'x \<Rightarrow> ('m, 'x) Header Message" where
  "closeMessage zero = \<lparr>Head = \<lparr>Meta = ClosePacket, Rest = zero\<rparr>, Data = [], secure = False\<rparr>"

text \<open>The flush loop at lines 261 to 268: it stops at the first error or on an empty channel.\<close>

fun flush_pending ::
  "('h, 'e, 'd) Gob \<Rightarrow> ('e, 'd) Link \<Rightarrow> 'h Message list \<Rightarrow>
   error option \<times> ('e, 'd) Link \<times> 'h Message list" where
  "flush_pending gob l [] = (None, l, [])"
| "flush_pending gob l (msg # pending) =
     (case SendDirect gob l msg of
        (Some e, l1) \<Rightarrow> (Some e, l1, [msg])
      | (None, l1) \<Rightarrow>
          (case flush_pending gob l1 pending of (errv, l2, sent) \<Rightarrow> (errv, l2, msg # sent)))"

text \<open>Lines 259 to 276: the branch taken when the quit request has arrived.\<close>

definition sender_quit ::
  "(('m, 'x) Header, 'e, 'd) Gob \<Rightarrow> 'x \<Rightarrow> ('e, 'd) Link \<Rightarrow> ('m, 'x) Header Message list \<Rightarrow>
   error option \<times> ('e, 'd) Link \<times> ('m, 'x) Header Message list" where
  "sender_quit gob zero l pending =
     (case flush_pending gob l pending of
        (Some e, l1, sent) \<Rightarrow> (Some e, l1, sent)
      | (None, l1, sent) \<Rightarrow>
          (case SendDirect gob l1 (closeMessage zero) of
             (errv, l2) \<Rightarrow> (errv, l2, sent @ [closeMessage zero])))"

text \<open>
  The whole worker. In the main loop a message is sent at once and an error ends the
  loop; the worker then waits for the quit request (the next \<open>Quit\<close> among the events)
  and reports the error, sending nothing more.
\<close>

fun await_quit :: "'h event list \<Rightarrow> bool" where
  "await_quit [] = False"
| "await_quit (Quit # evs) = True"
| "await_quit (Msg msg # evs) = await_quit evs"

fun sender ::
  "(('m, 'x) Header, 'e, 'd) Gob \<Rightarrow> 'x \<Rightarrow> ('e, 'd) Link \<Rightarrow> ('m, 'x) Header event list \<Rightarrow>
   ('m, 'x) Header Message list \<Rightarrow>
   (error option \<times> ('e, 'd) Link \<times> ('m, 'x) Header Message list) option" where
  "sender gob zero l [] pending = None"
| "sender gob zero l (Quit # evs) pending = Some (sender_quit gob zero l pending)"
| "sender gob zero l (Msg msg # evs) pending =
     (case SendDirect gob l msg of
        (Some e, l1) \<Rightarrow> (if await_quit evs then Some (Some e, l1, [msg]) else None)
      | (None, l1) \<Rightarrow>
          (case sender gob zero l1 evs pending of
             None \<Rightarrow> None
           | Some (errv, l2, sent) \<Rightarrow> Some (errv, l2, msg # sent)))"

section \<open>Invariants and abstraction of the queue\<close>

text \<open>
  Every block of the ring is an allocated array of \<^verbatim>\<open>blockSize\<close> slots.
\<close>

definition allocated :: "'a Queue \<Rightarrow> bool" where
  "allocated q = list_all (\<lambda>a. a < length (mem q) \<and> int (length (mem q ! a)) = blockSize) (blocks q)"

text \<open>
  The representation invariant behind the index safety of the queue: the offsets lie
  inside a block, the indices inside the ring, and \<^verbatim>\<open>head\<close> and \<^verbatim>\<open>tail\<close> are the blocks
  at \<^verbatim>\<open>headIdx\<close> and \<^verbatim>\<open>tailIdx\<close>.
\<close>

definition valid :: "'a Queue \<Rightarrow> bool" where
  "valid q \<longleftrightarrow>
     0 \<le> headOff q \<and> headOff q < blockSize \<and>
     0 \<le> tailOff q \<and> tailOff q < blockSize \<and>
     0 \<le> headIdx q \<and> headIdx q < int (length (blocks q)) \<and>
     0 \<le> tailIdx q \<and> tailIdx q < int (length (blocks q)) \<and>
     head q = blocks q ! nat (headIdx q) \<and>
     tail q = blocks q ! nat (tailIdx q) \<and>
     allocated q"

text \<open>
  The invariant of a queue that was never popped while empty: moreover no block occurs
  twice in the ring, and a tail in the head's block is not behind the head.
\<close>

definition invar :: "'a Queue \<Rightarrow> bool" where
  "invar q \<longleftrightarrow> valid q \<and> distinct (blocks q) \<and> (headIdx q = tailIdx q \<longrightarrow> headOff q \<le> tailOff q)"

text \<open>
  The contents. Position \<open>k\<close> counts slots from the start of the head's block, around
  the ring; the queue holds the slots from the head offset up to the tail position.
\<close>

definition cell :: "nat \<Rightarrow> 'a mem \<Rightarrow> addr list \<Rightarrow> nat \<Rightarrow> nat \<Rightarrow> 'a option" where
  "cell bs m bl h k = m ! (bl ! ((h + k div bs) mod length bl)) ! (k mod bs)"

definition slot :: "'a Queue \<Rightarrow> nat \<Rightarrow> 'a option" where
  "slot q k = cell (nat blockSize) (mem q) (blocks q) (nat (headIdx q)) k"

definition tpos :: "'a Queue \<Rightarrow> nat" where
  "tpos q = nat (headOff q + Size q)"

definition items :: "'a Queue \<Rightarrow> 'a option list" where
  "items q = map (slot q) [nat (headOff q) ..< tpos q]"

text \<open>Runs of operations: pushes, pops, and mixed runs in which no pop meets an empty queue.\<close>

fun pushes :: "'a Queue \<Rightarrow> 'a list \<Rightarrow> 'a Queue option" where
  "pushes q [] = Some q"
| "pushes q (v # vs) = (case Push q v of None \<Rightarrow> None | Some q' \<Rightarrow> pushes q' vs)"

fun pops :: "'a Queue \<Rightarrow> nat \<Rightarrow> ('a option list \<times> 'a Queue) option" where
  "pops q 0 = Some ([], q)"
| "pops q (Suc n) =
     (case Pop q of None \<Rightarrow> None
      | Some (r, q') \<Rightarrow> (case pops q' n of None \<Rightarrow> None | Some (rs, q'') \<Rightarrow> Some (r # rs, q'')))"

datatype 'a op = OpPush 'a | OpPop

fun run :: "'a Queue \<Rightarrow> 'a op list \<Rightarrow> 'a Queue option" where
  "run q [] = Some q"
| "run q (OpPush v # ops) = (case Push q v of None \<Rightarrow> None | Some q' \<Rightarrow> run q' ops)"
| "run q (OpPop # ops) = (case Pop q of None \<Rightarrow> None | Some (r, q') \<Rightarrow> run q' ops)"

fun legal :: "nat \<Rightarrow> 'a op list \<Rightarrow> bool" where
  "legal n [] = True"
| "legal n (OpPush v # ops) = legal (Suc n) ops"
| "legal n (OpPop # ops) = (0 < n \<and> legal (n - 1) ops)"

fun num_pushes :: "'a op list \<Rightarrow> nat" where
  "num_pushes [] = 0"
| "num_pushes (OpPush v # ops) = Suc (num_pushes ops)"
| "num_pushes (OpPop # ops) = num_pushes ops"

fun num_pops :: "'a op list \<Rightarrow> nat" where
  "num_pops [] = 0"
| "num_pops (OpPush v # ops) = num_pops ops"
| "num_pops (OpPop # ops) = Suc (num_pops ops)"

section \<open>Runs of messages, the MAC chain and a paired transport\<close>

text \<open>
  Messages sent, and received, one after the other; a run stops at the first error.
\<close>

fun send_all ::
  "('h, 'e, 'd) Gob \<Rightarrow> ('e, 'd) Link \<Rightarrow> 'h Message list \<Rightarrow> error option \<times> ('e, 'd) Link" where
  "send_all gob l [] = (None, l)"
| "send_all gob l (msg # msgs) =
     (case SendDirect gob l msg of
        (Some e, l1) \<Rightarrow> (Some e, l1)
      | (None, l1) \<Rightarrow> send_all gob l1 msgs)"

fun recv_all ::
  "('h, 'e, 'd) Gob \<Rightarrow> ('e, 'd) Link \<Rightarrow> nat \<Rightarrow> (error + 'h Message list) \<times> ('e, 'd) Link" where
  "recv_all gob l 0 = (Inr [], l)"
| "recv_all gob l (Suc n) =
     (case RecvDirect gob l of
        (Inl e, l1) \<Rightarrow> (Inl e, l1)
      | (Inr msg, l1) \<Rightarrow>
          (case recv_all gob l1 n of
             (Inl e, l2) \<Rightarrow> (Inl e, l2)
           | (Inr msgs, l2) \<Rightarrow> (Inr (msg # msgs), l2)))"

text \<open>
  The frames of a run are triples: ciphertext header, payload, tag. \<open>mac_chain f w\<close> says
  that each tag is the keyed digest \<open>f\<close> of \<open>w\<close> followed by all headers and payloads up
  to its own; \<open>mac_input\<close> is what a run of frames feeds to the MAC.
\<close>

fun mac_chain :: "(bytes \<Rightarrow> bytes) \<Rightarrow> bytes \<Rightarrow> bytes list \<Rightarrow> bool" where
  "mac_chain f w [] = True"
| "mac_chain f w (h # d # t # frames) = (t = f (w @ h @ d) \<and> mac_chain f (w @ h @ d) frames)"
| "mac_chain f w _ = False"

fun mac_input :: "bytes list \<Rightarrow> bytes" where
  "mac_input (h # d # t # frames) = h @ d @ mac_input frames"
| "mac_input _ = []"

text \<open>
  What section 4.3 of the spec asks of a run of sends, written out from the messages:
  for each message the encoded header, XORed with the key stream from where the cipher
  stands, then the payload, then the digest of all that the MAC has been given so far.
  \<open>buf\<close> is what the scratch buffer holds before the first message.
\<close>

fun run_frames ::
  "('h, 'e, 'd) Gob \<Rightarrow> 'e \<Rightarrow> CipherStream \<Rightarrow> bytes \<Rightarrow> Macer \<Rightarrow> 'h Message list \<Rightarrow> bytes list" where
  "run_frames gob enc c buf m [] = []"
| "run_frames gob enc c buf m (msg # msgs) =
     (case Encode gob enc (Head msg) of (err, out, enc') \<Rightarrow>
        (case XORKeyStream c (buf @ out) of (ct, c') \<Rightarrow>
           [ct, Data msg, keyed m (written m @ ct @ Data msg)] @
           run_frames gob enc' c' [] (m\<lparr>written := written m @ ct @ Data msg\<rparr>) msgs))"

text \<open>
  The frames taken by a run of receives that returned the messages \<open>msgs\<close>, given the
  header frames \<open>hs\<close> as they arrived; and what section 4.4 makes of header frames:
  each is XORed with the key stream and decoded.
\<close>

fun taken_frames :: "Macer \<Rightarrow> bytes list \<Rightarrow> 'h Message list \<Rightarrow> bytes list" where
  "taken_frames m (h # hs) (msg # msgs) =
     [h, Data msg, keyed m (written m @ h @ Data msg)] @
     taken_frames (m\<lparr>written := written m @ h @ Data msg\<rparr>) hs msgs"
| "taken_frames m _ _ = []"

fun read_heads ::
  "('h, 'e, 'd) Gob \<Rightarrow> 'd \<Rightarrow> CipherStream \<Rightarrow> bytes \<Rightarrow> bytes list \<Rightarrow> (error + 'h) list" where
  "read_heads gob dec c buf [] = []"
| "read_heads gob dec c buf (h # hs) =
     (case XORKeyStream c h of (pt, c') \<Rightarrow>
        (case Decode gob dec (buf @ pt) of (res, rest, dec') \<Rightarrow>
           res # read_heads gob dec' c' rest hs))"

text \<open>The paired transport: frames committed to the wire at one end arrive at the other.\<close>

definition deliver :: "bytes list \<Rightarrow> ('e, 'd) Link \<Rightarrow> ('e, 'd) Link" where
  "deliver frames l = l\<lparr>socket := (socket l)\<lparr>inq := inq (socket l) @ frames\<rparr>\<rparr>"

text \<open>
  A small concrete setting for the instances at the end: a header codec of one or two
  bytes, an empty transport, a key-derivation stream of nine bytes, and two links whose
  directions are paired as those of a server and a client.
\<close>

definition example_gob :: "((byte, unit) Header, unit, unit) Gob" where
  "example_gob =
     \<lparr>Encode = (\<lambda>e h. (None,
          (case Meta h of NilMeta \<Rightarrow> [0] | ClosePacket \<Rightarrow> [1] | UpperMeta m \<Rightarrow> [2, m]), e)),
      Decode = (\<lambda>d buf.
          (case buf of
             [k] \<Rightarrow> (if k = 0 then (Inr \<lparr>Meta = NilMeta, Rest = ()\<rparr>, [], d)
                     else if k = 1 then (Inr \<lparr>Meta = ClosePacket, Rest = ()\<rparr>, [], d)
                     else (Inl ''gob: bad header'', [], d))
           | [k, m] \<Rightarrow> (if k = 2 then (Inr \<lparr>Meta = UpperMeta m, Rest = ()\<rparr>, [], d)
                        else (Inl ''gob: bad header'', [], d))
           | _ \<Rightarrow> (Inl ''gob: bad header'', [], d))),
      NewEncoder = (), NewDecoder = ()\<rparr>"

definition example_stream :: Stream where
  "example_stream = \<lparr>outq = [], wire = [], inq = [], faults = []\<rparr>"

definition example_cfg :: "bytes Config" where
  "example_cfg =
     \<lparr>SessionCipherBits = 16, SessionCipher = (\<lambda>key. Inr key), BlockSize = (\<lambda>block. 1),
      NewCTR = (\<lambda>block iv i. sum_list block + sum_list iv + of_nat i),
      SessionHashSize = 1, hmac_New = (\<lambda>salt w. [sum_list salt + sum_list w])\<rparr>"

definition example_hkdf :: bytes where
  "example_hkdf = [1, 2, 3, 4, 5, 6, 7, 8, 9]"

definition example_link :: "bool \<Rightarrow> (unit, unit) Link" where
  "example_link server =
     \<lparr>socket = example_stream,
      inCipher = \<lparr>keystream = (\<lambda>i. (if server then 20 else 6) + of_nat i), pos = 0\<rparr>,
      outCipher = \<lparr>keystream = (\<lambda>i. (if server then 6 else 20) + of_nat i), pos = 0\<rparr>,
      inMacer = \<lparr>keyed = (\<lambda>w. [(if server then 8 else 4) + sum_list w]), written = []\<rparr>,
      outMacer = \<lparr>keyed = (\<lambda>w. [(if server then 4 else 8) + sum_list w]), written = []\<rparr>,
      inBuffer = [], outBuffer = [], inCoder = (), outCoder = (),
      inHeadBuf = [], inMacBuf = []\<rparr>"

definition example_msgs :: "(byte, unit) Header Message list" where
  "example_msgs =
     [\<lparr>Head = \<lparr>Meta = UpperMeta 5, Rest = ()\<rparr>, Data = [10, 11], secure = True\<rparr>,
      \<lparr>Head = \<lparr>Meta = NilMeta, Rest = ()\<rparr>, Data = [], secure = False\<rparr>]"

definition example_plain :: "(byte, unit) Header Message" where
  "example_plain = \<lparr>Head = \<lparr>Meta = NilMeta, Rest = ()\<rparr>, Data = [120, 120], secure = False\<rparr>"

section \<open>The queue: index safety, FIFO order and size\<close>

lemma blockSize_pos: "0 < blockSize"
  by (simp add: blockSize_def)

lemma valid_blocks: "valid q \<Longrightarrow> 0 < int (length (blocks q))"
  unfolding valid_def by linarith

lemma valid_New: "valid (New :: 'a Queue)"
  by (simp add: valid_def New_def make_block_def allocated_def blockSize_def)

lemma go_rem_nonneg: "0 \<le> a \<Longrightarrow> 0 < b \<Longrightarrow> go_rem a b = Some (a mod b)"
  by (simp add: go_rem_def sgn_if)

lemma allocatedD:
  "allocated q \<Longrightarrow> i < length (blocks q) \<Longrightarrow>
   blocks q ! i < length (mem q) \<and> int (length (mem q ! (blocks q ! i))) = blockSize"
  by (simp add: allocated_def list_all_length)

lemma store_allocated:
  assumes "store m a i v = Some m'"
  shows "length m' = length m" and "\<And>b. length (m' ! b) = length (m ! b)"
proof -
  from assms have m': "m' = m[a := (m ! a)[nat i := v]]" and a: "a < length m"
    by (auto simp: store_def split: if_splits)
  show "length m' = length m" by (simp add: m')
  show "length (m' ! b) = length (m ! b)" for b
    using a by (cases "b = a") (simp_all add: m' nth_list_update)
qed

lemma store_valid_ok:
  "valid q \<Longrightarrow> \<exists>m. store (mem q) (tail q) (tailOff q) v = Some m"
  "valid q \<Longrightarrow> \<exists>m. store (mem q) (head q) (headOff q) v = Some m"
  using allocatedD[of q "nat (tailIdx q)"] allocatedD[of q "nat (headIdx q)"]
  by (auto simp: valid_def store_def)

lemma allocated_mem_cong:
  "allocated q \<Longrightarrow> blocks q' = blocks q \<Longrightarrow> length (mem q') = length (mem q) \<Longrightarrow>
   (\<And>b. length (mem q' ! b) = length (mem q ! b)) \<Longrightarrow> allocated q'"
  by (simp add: allocated_def)

lemma allocated_store:
  assumes "allocated q" and "store (mem q) a i v = Some m" and "blocks q' = blocks q" and "mem q' = m"
  shows "allocated q'"
  using assms(1) assms(3) store_allocated[OF assms(2)] by (simp add: allocated_def assms(4))

lemma insert_block_valid:
  assumes al: "allocated q" and t: "0 \<le> tailIdx q" "tailIdx q < int (length (blocks q))"
    and eq: "tailIdx q = headIdx q"
    and offs: "0 \<le> headOff q" "headOff q < blockSize" "0 \<le> tailOff q" "tailOff q < blockSize"
  shows "\<exists>q'. insert_block q = Some q' \<and> allocated q' \<and> tailIdx q' = tailIdx q \<and>
           headIdx q' = headIdx q + 1 \<and> length (blocks q') = length (blocks q) + 1 \<and>
           head q' = blocks q' ! nat (headIdx q') \<and> headOff q' = headOff q \<and> tailOff q' = tailOff q"
proof -
  let ?t = "nat (tailIdx q)"
  let ?b = "length (mem q)"
  let ?buf = "take ?t (blocks q) @ [?b] @ drop ?t (blocks q)"
  let ?q1 = "q\<lparr>mem := mem q @ [replicate (nat blockSize) None], blocks := ?buf, headIdx := headIdx q + 1\<rparr>"
  let ?q' = "?q1\<lparr>head := ?buf ! nat (headIdx q + 1)\<rparr>"
  have len: "length ?buf = length (blocks q) + 1" by simp
  have "insert_block q = Some ?q'"
    using t eq by (simp add: insert_block_def make_block_def index_def Let_def)
  moreover have "allocated ?q'"
    using al blockSize_pos
    by (auto simp: allocated_def list_all_iff nth_append dest: in_set_takeD in_set_dropD)
  ultimately show ?thesis using len by simp
qed

lemma Push_valid:
  assumes v: "valid q"
  shows "\<exists>q'. Push q v = Some q' \<and> valid q'"
proof -
  from store_valid_ok(1)[OF v] obtain m where m: "store (mem q) (tail q) (tailOff q) (Some v) = Some m"
    by blast
  let ?q1 = "q\<lparr>mem := m, tailOff := tailOff q + 1\<rparr>"
  have al: "allocated q" using v by (simp add: valid_def)
  have al1: "allocated ?q1"
    by (rule allocated_store[OF al m]) simp_all
  show ?thesis
  proof (cases "tailOff q + 1 = blockSize")
    case False
    then have "Push q v = Some ?q1" by (simp add: Push_def m)
    moreover have "valid ?q1" using v al1 False by (simp add: valid_def)
    ultimately show ?thesis by blast
  next
    case True
    let ?L = "int (length (blocks q))"
    let ?i = "(tailIdx q + 1) mod ?L"
    have L: "0 < ?L" using v by (rule valid_blocks)
    have i: "go_rem (tailIdx q + 1) ?L = Some ?i" "0 \<le> ?i" "?i < ?L"
      using v L by (simp_all add: go_rem_nonneg valid_def)
    let ?q2 = "?q1\<lparr>tailOff := 0, tailIdx := ?i\<rparr>"
    have al2: "allocated ?q2" using al1 by (simp add: allocated_def)
    show ?thesis
    proof (cases "?i = headIdx q")
      case False
      let ?q' = "?q2\<lparr>tail := blocks q ! nat ?i\<rparr>"
      have "Push q v = Some ?q'"
        using True False i by (simp add: Push_def m index_def)
      moreover have "valid ?q'"
        using v al2 i blockSize_pos by (simp add: valid_def allocated_def)
      ultimately show ?thesis by blast
    next
      case eq: True
      have "\<exists>q'. insert_block ?q2 = Some q' \<and> allocated q' \<and> tailIdx q' = tailIdx ?q2 \<and>
           headIdx q' = headIdx ?q2 + 1 \<and> length (blocks q') = length (blocks ?q2) + 1 \<and>
           head q' = blocks q' ! nat (headIdx q') \<and> headOff q' = headOff ?q2 \<and> tailOff q' = tailOff ?q2"
        using al2 i eq v blockSize_pos
        by (intro insert_block_valid) (simp_all add: valid_def)
      then obtain q3 where q3: "insert_block ?q2 = Some q3" "allocated q3" "tailIdx q3 = ?i"
        "headIdx q3 = headIdx q + 1" "length (blocks q3) = length (blocks q) + 1"
        "head q3 = blocks q3 ! nat (headIdx q3)" "headOff q3 = headOff q" "tailOff q3 = 0"
        by auto
      let ?q' = "q3\<lparr>tail := blocks q3 ! nat ?i\<rparr>"
      have "Push q v = Some ?q'"
        using True eq i q3 by (simp add: Push_def m index_def)
      moreover have "valid ?q'"
        using v q3 i blockSize_pos by (simp add: valid_def allocated_def)
      ultimately show ?thesis by blast
    qed
  qed
qed

lemma Pop_valid:
  assumes v: "valid q"
  shows "\<exists>r q'. Pop q = Some (r, q') \<and> valid q'"
proof -
  from store_valid_ok(2)[OF v] obtain m where m: "store (mem q) (head q) (headOff q) None = Some m"
    by blast
  then obtain r where r: "load (mem q) (head q) (headOff q) = Some r"
    by (auto simp: store_def load_def index_def split: if_splits)
  let ?q1 = "q\<lparr>mem := m, headOff := headOff q + 1\<rparr>"
  have al: "allocated q" using v by (simp add: valid_def)
  have al1: "allocated ?q1"
    by (rule allocated_store[OF al m]) simp_all
  show ?thesis
  proof (cases "headOff q + 1 = blockSize")
    case False
    then have "Pop q = Some (r, ?q1)" by (simp add: Pop_def m r)
    moreover have "valid ?q1" using v al1 False by (simp add: valid_def)
    ultimately show ?thesis by blast
  next
    case True
    let ?L = "int (length (blocks q))"
    let ?i = "(headIdx q + 1) mod ?L"
    have L: "0 < ?L" using v by (rule valid_blocks)
    have i: "go_rem (headIdx q + 1) ?L = Some ?i" "0 \<le> ?i" "?i < ?L"
      using v L by (simp_all add: go_rem_nonneg valid_def)
    let ?q' = "?q1\<lparr>headOff := 0, headIdx := ?i, head := blocks q ! nat ?i\<rparr>"
    have "Pop q = Some (r, ?q')"
      using True i by (simp add: Pop_def m r index_def)
    moreover have "valid ?q'"
      using v al1 i blockSize_pos by (simp add: valid_def allocated_def)
    ultimately show ?thesis by blast
  qed
qed

lemma Front_valid: "valid q \<Longrightarrow> \<exists>r. Front q = Some r"
  using store_valid_ok(2)[of q None]
  by (auto simp: Front_def store_def load_def index_def split: if_splits)

lemma clear_blocks_length:
  "length (fold (\<lambda>a m. clear_block m a) as m) = length m \<and>
   (\<forall>b. length (fold (\<lambda>a m. clear_block m a) as m ! b) = length (m ! b))"
proof (induction as arbitrary: m)
  case Nil
  show ?case by simp
next
  case (Cons a as)
  have "length (clear_block m a ! b) = length (m ! b)" for b
    by (cases "a < length m") (simp_all add: clear_block_def nth_list_update list_update_beyond)
  with Cons[of "clear_block m a"] show ?case by (simp add: clear_block_def)
qed

lemma Reset_valid:
  assumes v: "valid q"
  shows "\<exists>q'. Reset q = Some q' \<and> valid q'"
proof -
  let ?m = "fold (\<lambda>a m. clear_block m a) (blocks q) (mem q)"
  let ?q' = "q\<lparr>headIdx := 0, tailIdx := 0, headOff := 0, tailOff := 0,
                head := blocks q ! 0, tail := blocks q ! 0, mem := ?m\<rparr>"
  have L: "0 < int (length (blocks q))" using v by (rule valid_blocks)
  then have "Reset q = Some ?q'" by (simp add: Reset_def index_def)
  moreover have "allocated q" using v by (simp add: valid_def)
  then have "allocated ?q'"
    using clear_blocks_length[of "blocks q" "mem q"] by (simp add: allocated_def)
  then have "valid ?q'" using L blockSize_pos by (simp add: valid_def)
  ultimately show ?thesis by blast
qed

text \<open>
  C9: every queue operation keeps the offsets inside a block, the indices inside the ring
  and \<^verbatim>\<open>head\<close>, \<^verbatim>\<open>tail\<close> equal to \<^verbatim>\<open>blocks[headIdx]\<close>, \<^verbatim>\<open>blocks[tailIdx]\<close>. The fresh
  queue is in that state, and from any such state \<^verbatim>\<open>Push\<close>, \<^verbatim>\<open>Pop\<close>, \<^verbatim>\<open>Front\<close> and
  \<^verbatim>\<open>Reset\<close> return without a panic, an empty queue included, and leave such a state.
\<close>

theorem queue_ops_in_bounds:
  "valid (New :: 'a Queue) \<and>
   (valid q \<longrightarrow>
      (\<exists>q'. Push q x = Some q' \<and> valid q') \<and>
      (\<exists>r q'. Pop q = Some (r, q') \<and> valid q') \<and>
      (\<exists>r. Front q = Some r) \<and>
      (\<exists>q'. Reset q = Some q' \<and> valid q'))"
  using valid_New [where 'a = 'a] Push_valid [of q x] Pop_valid [of q] Front_valid [of q]
    Reset_valid [of q]
  by simp

theorem queue_ops_in_bounds_witness:
  "valid (New :: nat Queue) \<and>
   (\<exists>q'. Push New (7 :: nat) = Some q' \<and> valid q') \<and>
   (\<exists>r q'. Pop (New :: nat Queue) = Some (r, q') \<and> valid q') \<and>
   (\<exists>r. Front (New :: nat Queue) = Some r) \<and>
   (\<exists>q'. Reset (New :: nat Queue) = Some q' \<and> valid q')"
  using queue_ops_in_bounds [of "New :: nat Queue" 7] by (elim conjE impE) (assumption, intro conjI)

lemma nat_blockSize_pos: "0 < nat blockSize"
  by (simp add: blockSize_def)

lemma ring_index:
  fixes h d L :: nat
  assumes "h < L" "d < L"
  shows "(h + d) mod L = (if h + d < L then h + d else h + d - L)"
  using assms by (simp add: mod_if)

lemma ring_inj:
  fixes h d d' L :: nat
  assumes "h < L" "d < L" "d' < L" "(h + d) mod L = (h + d') mod L"
  shows "d = d'"
  using assms(4) unfolding ring_index[OF assms(1,2)] ring_index[OF assms(1,3)]
  using assms(1-3) by (auto split: if_splits)

lemma ring_insert:
  fixes bl :: "'b list"
  assumes h: "h < length bl" and d: "d < length bl"
  shows "(take h bl @ [n] @ drop h bl) ! ((h + 1 + d) mod (length bl + 1)) = bl ! ((h + d) mod length bl)"
proof (cases "h + d < length bl")
  case True
  then have "(h + 1 + d) mod (length bl + 1) = h + d + 1" "(h + d) mod length bl = h + d" by simp_all
  then show ?thesis using h True by (simp add: nth_append)
next
  case False
  then have 1: "(h + d) mod length bl = h + d - length bl"
    using h d by (simp add: mod_if)
  have "(h + 1 + d) mod (length bl + 1) = h + 1 + d - (length bl + 1)"
    using False h d by (simp add: mod_if)
  then have 2: "(h + 1 + d) mod (length bl + 1) = h + d - length bl" by simp
  have 3: "h + d - length bl < h" using d False by linarith
  have "(take h bl @ [n] @ drop h bl) ! (h + d - length bl) = bl ! (h + d - length bl)"
    using h 3 by (simp add: nth_append)
  then show ?thesis unfolding 1 2 .
qed

lemma cell_store:
  assumes dist: "distinct bl" and j: "j < length bl" and h: "h < length bl"
    and k: "k < length bl * bs"
    and a: "bl ! j < length m" and i: "i < bs"
    and len: "\<And>j'. j' < length bl \<Longrightarrow> length (m ! (bl ! j')) = bs"
  shows "cell bs (m[bl ! j := (m ! (bl ! j))[i := v]]) bl h k =
         (if (h + k div bs) mod length bl = j \<and> k mod bs = i then v
          else cell bs m bl h k)"
proof -
  let ?j' = "(h + k div bs) mod length bl"
  have L0: "0 < length bl" using j by linarith
  have j': "?j' < length bl" using L0 by simp
  have o: "k mod bs < bs" using i by simp
  show ?thesis
  proof (cases "?j' = j")
    case True
    then show ?thesis using a i o len[OF j] by (simp add: cell_def nth_list_update)
  next
    case False
    then have "bl ! ?j' \<noteq> bl ! j" using dist j j' by (simp add: nth_eq_iff_index_eq)
    then show ?thesis using False by (simp add: cell_def)
  qed
qed

lemma cell_insert:
  assumes h: "h < length bl" and k: "k < length bl * bs"
    and a: "\<And>j. j < length bl \<Longrightarrow> bl ! j < length m"
  shows "cell bs (m @ [nb]) (take h bl @ [length m] @ drop h bl) (h + 1) k = cell bs m bl h k"
proof -
  have d: "k div bs < length bl"
    using k by (simp add: less_mult_imp_div_less)
  have "(take h bl @ [length m] @ drop h bl) ! ((h + 1 + k div bs) mod (length bl + 1))
        = bl ! ((h + k div bs) mod length bl)"
    by (rule ring_insert[OF h d])
  moreover have "0 < length bl" using h by linarith
  then have "bl ! ((h + k div bs) mod length bl) < length m"
    by (intro a) simp
  ultimately show ?thesis using h by (simp add: cell_def nth_append)
qed

lemma cell_advance:
  assumes bs: "0 < bs"
  shows "cell bs m bl ((h + 1) mod length bl) k = cell bs m bl h (k + bs)"
proof -
  have "(k + bs) div bs = k div bs + 1"
    using bs div_add_self2[of bs k] by simp
  moreover have "((h + 1) mod length bl + k div bs) mod length bl
        = (h + 1 + k div bs) mod length bl"
    by (rule mod_add_left_eq)
  ultimately have "((h + 1) mod length bl + k div bs) mod length bl
        = (h + (k + bs) div bs) mod length bl"
    by (simp add: add.assoc add.commute)
  then show ?thesis by (simp add: cell_def)
qed

lemma valid_view:
  assumes "valid q"
  obtains h t ho to bs where
    "blockSize = int bs" "0 < bs" "nat blockSize = bs"
    "headIdx q = int h" "tailIdx q = int t" "headOff q = int ho" "tailOff q = int to"
    "h < length (blocks q)" "t < length (blocks q)" "ho < bs" "to < bs"
proof -
  have "blockSize = int (nat blockSize)" "0 < nat blockSize" "nat blockSize = nat blockSize"
    "headIdx q = int (nat (headIdx q))" "tailIdx q = int (nat (tailIdx q))"
    "headOff q = int (nat (headOff q))" "tailOff q = int (nat (tailOff q))"
    "nat (headIdx q) < length (blocks q)" "nat (tailIdx q) < length (blocks q)"
    "nat (headOff q) < nat blockSize" "nat (tailOff q) < nat blockSize"
    using assms blockSize_pos by (auto simp: valid_def nat_less_iff)
  then show ?thesis by (rule that)
qed

lemma le_mult_pos: "0 < d \<Longrightarrow> (bs :: nat) \<le> d * bs"
  by (cases d) simp_all

lemma tpos_ring:
  assumes inv: "invar q"
  shows "\<exists>d. d < length (blocks q) \<and>
           (nat (headIdx q) + d) mod length (blocks q) = nat (tailIdx q) \<and>
           headOff q + Size q = int (d * nat blockSize + nat (tailOff q)) \<and>
           nat (headOff q) \<le> d * nat blockSize + nat (tailOff q)"
proof -
  from inv have v: "valid q" by (simp add: invar_def)
  from v obtain h t ho to bs where
    n: "blockSize = int bs" "0 < bs" "nat blockSize = bs"
    "headIdx q = int h" "tailIdx q = int t" "headOff q = int ho" "tailOff q = int to"
    "h < length (blocks q)" "t < length (blocks q)" "ho < bs" "to < bs"
    by (rule valid_view)
  let ?L = "length (blocks q)"
  consider (gt) "h < t" | (lt) "t < h" | (eq) "h = t" by linarith
  then show ?thesis
  proof cases
    case gt
    have "(h + (t - h)) mod ?L = t" using gt n by simp
    moreover have e: "int (t - h) = int t - int h"
      using gt by simp
    have "headOff q + Size q = (int t - int h) * int bs + int to"
      using gt unfolding Size_def n by simp
    then have "headOff q + Size q = int ((t - h) * bs + to)"
      by (simp add: e)
    moreover have "bs \<le> (t - h) * bs" using gt by (intro le_mult_pos) simp
    then have "ho \<le> (t - h) * bs + to" using n by linarith
    ultimately show ?thesis using gt n by (intro exI[of _ "t - h"]) simp
  next
    case lt
    have "(h + (?L - h + t)) mod ?L = t" using lt n by simp
    moreover have e: "int (?L - h) = int ?L - int h"
      using n(8) by simp
    have "headOff q + Size q = (int ?L - int h + int t) * int bs + int to"
      using lt unfolding Size_def n by simp
    then have "headOff q + Size q = int ((?L - h + t) * bs + to)"
      by (simp add: e)
    moreover have "bs \<le> (?L - h + t) * bs" using lt n by (intro le_mult_pos) simp
    then have "ho \<le> (?L - h + t) * bs + to" using n by linarith
    ultimately show ?thesis using lt n by (intro exI[of _ "?L - h + t"]) simp
  next
    case eq
    have "(h + 0) mod ?L = t" using eq n by simp
    moreover have "headOff q + Size q = int (0 * bs + to)"
      using eq unfolding Size_def n by simp
    moreover have "ho \<le> 0 * bs + to" using inv eq n by (simp add: invar_def)
    moreover have "0 < ?L" using n(9) by linarith
    ultimately show ?thesis using eq n by (intro exI[of _ 0]) simp
  qed
qed

lemma tpos_view:
  assumes inv: "invar q"
  obtains d where "d < length (blocks q)"
    "(nat (headIdx q) + d) mod length (blocks q) = nat (tailIdx q)"
    "tpos q = d * nat blockSize + nat (tailOff q)"
    "headOff q + Size q = int (tpos q)"
    "nat (headOff q) \<le> tpos q"
    "tpos q < length (blocks q) * nat blockSize"
    "tpos q div nat blockSize = d"
    "tpos q mod nat blockSize = nat (tailOff q)"
proof -
  from tpos_ring[OF inv] obtain d where d: "d < length (blocks q)"
    "(nat (headIdx q) + d) mod length (blocks q) = nat (tailIdx q)"
    "headOff q + Size q = int (d * nat blockSize + nat (tailOff q))"
    "nat (headOff q) \<le> d * nat blockSize + nat (tailOff q)"
    by blast
  from inv have "valid q" by (simp add: invar_def)
  then have to: "nat (tailOff q) < nat blockSize"
    by (auto simp: valid_def nat_less_iff)
  have t: "tpos q = d * nat blockSize + nat (tailOff q)"
    by (simp only: tpos_def d(3) nat_int)
  have "d * nat blockSize + nat (tailOff q) < d * nat blockSize + nat blockSize"
    using to by simp
  also have "\<dots> = Suc d * nat blockSize" by simp
  also have "\<dots> \<le> length (blocks q) * nat blockSize"
    using d(1) by (simp only: mult_le_mono1 Suc_leI)
  finally have lt: "tpos q < length (blocks q) * nat blockSize" by (simp add: t)
  show ?thesis
  proof (rule that[of d])
    show "tpos q div nat blockSize = d" using to by (simp add: t)
    show "tpos q mod nat blockSize = nat (tailOff q)" using to by (simp add: t)
    show "headOff q + Size q = int (tpos q)" by (simp only: t d(3))
    show "nat (headOff q) \<le> tpos q" by (simp only: t d(4))
  qed (rule d(1) d(2) t lt)+
qed

lemma tpos_unique:
  assumes inv: "invar q" and d: "d < length (blocks q)"
    and r: "(nat (headIdx q) + d) mod length (blocks q) = nat (tailIdx q)"
  shows "tpos q = d * nat blockSize + nat (tailOff q)"
proof -
  from inv have "valid q" by (simp add: invar_def)
  then have h: "nat (headIdx q) < length (blocks q)"
    by (auto simp: valid_def nat_less_iff)
  from inv obtain d' where d': "d' < length (blocks q)"
    "(nat (headIdx q) + d') mod length (blocks q) = nat (tailIdx q)"
    "tpos q = d' * nat blockSize + nat (tailOff q)"
    by (rule tpos_view)
  have "d' = d"
    by (rule ring_inj[OF h d'(1) d]) (simp add: d'(2) r)
  then show ?thesis using d'(3) by simp
qed

lemma Push_cases:
  assumes v: "valid q"
  obtains (plain) m where
      "store (mem q) (tail q) (tailOff q) (Some x) = Some m"
      "tailOff q + 1 \<noteq> blockSize"
      "Push q x = Some (q\<lparr>mem := m, tailOff := tailOff q + 1\<rparr>)"
  | (wrap) m where
      "store (mem q) (tail q) (tailOff q) (Some x) = Some m"
      "tailOff q + 1 = blockSize"
      "(tailIdx q + 1) mod int (length (blocks q)) \<noteq> headIdx q"
      "Push q x = Some (q\<lparr>mem := m, tailOff := 0,
          tailIdx := (tailIdx q + 1) mod int (length (blocks q)),
          tail := blocks q ! nat ((tailIdx q + 1) mod int (length (blocks q)))\<rparr>)"
  | (grow) m where
      "store (mem q) (tail q) (tailOff q) (Some x) = Some m"
      "tailOff q + 1 = blockSize"
      "(tailIdx q + 1) mod int (length (blocks q)) = headIdx q"
      "Push q x = Some (q\<lparr>mem := m @ [replicate (nat blockSize) None], tailOff := 0,
          tailIdx := headIdx q,
          blocks := take (nat (headIdx q)) (blocks q) @ [length m] @ drop (nat (headIdx q)) (blocks q),
          headIdx := headIdx q + 1, head := head q, tail := length m\<rparr>)"
proof -
  from store_valid_ok(1)[OF v] obtain m where m: "store (mem q) (tail q) (tailOff q) (Some x) = Some m"
    by blast
  let ?L = "int (length (blocks q))"
  let ?i = "(tailIdx q + 1) mod ?L"
  have L: "0 < ?L" using v by (rule valid_blocks)
  have i: "go_rem (tailIdx q + 1) ?L = Some ?i" "0 \<le> ?i" "?i < ?L"
    using v L by (simp_all add: go_rem_nonneg valid_def)
  consider "tailOff q + 1 \<noteq> blockSize" | "tailOff q + 1 = blockSize" "?i \<noteq> headIdx q"
    | "tailOff q + 1 = blockSize" "?i = headIdx q" by blast
  then show ?thesis
  proof cases
    case 1
    then have "Push q x = Some (q\<lparr>mem := m, tailOff := tailOff q + 1\<rparr>)"
      by (simp add: Push_def m)
    with m 1 show ?thesis by (rule plain)
  next
    case 2
    then have "Push q x = Some (q\<lparr>mem := m, tailOff := 0, tailIdx := ?i, tail := blocks q ! nat ?i\<rparr>)"
      using i by (simp add: Push_def m index_def)
    with m 2 show ?thesis by (rule wrap)
  next
    case 3
    have h: "0 \<le> headIdx q" "headIdx q < ?L" using v by (simp_all add: valid_def)
    have hd: "head q = blocks q ! nat (headIdx q)" using v by (simp add: valid_def)
    have nth: "(take (nat (headIdx q)) (blocks q) @ [length m] @ drop (nat (headIdx q)) (blocks q)) ! nat (headIdx q) = length m"
      "(take (nat (headIdx q)) (blocks q) @ [length m] @ drop (nat (headIdx q)) (blocks q)) ! nat (headIdx q + 1) = head q"
      using h by (simp_all add: nth_append hd nat_add_distrib)
    have "Push q x = Some (q\<lparr>mem := m @ [replicate (nat blockSize) None], tailOff := 0,
          tailIdx := headIdx q,
          blocks := take (nat (headIdx q)) (blocks q) @ [length m] @ drop (nat (headIdx q)) (blocks q),
          headIdx := headIdx q + 1, head := head q, tail := length m\<rparr>)"
      using 3 i h nth by (simp add: Push_def m index_def insert_block_def make_block_def Let_def)
    with m 3 show ?thesis by (rule grow)
  qed
qed

lemma Pop_cases:
  assumes v: "valid q"
  obtains (plain) m where
      "store (mem q) (head q) (headOff q) None = Some m"
      "headOff q + 1 \<noteq> blockSize"
      "Pop q = Some (mem q ! head q ! nat (headOff q), q\<lparr>mem := m, headOff := headOff q + 1\<rparr>)"
  | (wrap) m where
      "store (mem q) (head q) (headOff q) None = Some m"
      "headOff q + 1 = blockSize"
      "Pop q = Some (mem q ! head q ! nat (headOff q), q\<lparr>mem := m, headOff := 0,
          headIdx := (headIdx q + 1) mod int (length (blocks q)),
          head := blocks q ! nat ((headIdx q + 1) mod int (length (blocks q)))\<rparr>)"
proof -
  from store_valid_ok(2)[OF v] obtain m where m: "store (mem q) (head q) (headOff q) None = Some m"
    by blast
  then have r: "load (mem q) (head q) (headOff q) = Some (mem q ! head q ! nat (headOff q))"
    by (auto simp: store_def load_def index_def split: if_splits)
  let ?L = "int (length (blocks q))"
  let ?i = "(headIdx q + 1) mod ?L"
  have L: "0 < ?L" using v by (rule valid_blocks)
  have i: "go_rem (headIdx q + 1) ?L = Some ?i" "0 \<le> ?i" "?i < ?L"
    using v L by (simp_all add: go_rem_nonneg valid_def)
  show ?thesis
  proof (cases "headOff q + 1 = blockSize")
    case False
    then have "Pop q = Some (mem q ! head q ! nat (headOff q), q\<lparr>mem := m, headOff := headOff q + 1\<rparr>)"
      by (simp add: Pop_def m r)
    with m False show ?thesis by (rule plain)
  next
    case True
    then have "Pop q = Some (mem q ! head q ! nat (headOff q), q\<lparr>mem := m, headOff := 0,
          headIdx := ?i, head := blocks q ! nat ?i\<rparr>)"
      using i by (simp add: Pop_def m r index_def)
    with m True show ?thesis by (rule wrap)
  qed
qed

lemma items_snoc:
  assumes "tpos q' = Suc (tpos q)" and "headOff q' = headOff q" and "nat (headOff q) \<le> tpos q"
    and "\<And>k. k < tpos q \<Longrightarrow> slot q' k = slot q k" and "slot q' (tpos q) = x"
  shows "items q' = items q @ [x]"
  using assms by (simp add: items_def)

lemma invar_nat:
  assumes "invar q"
  shows "nat (headIdx q) < length (blocks q)" "nat (tailIdx q) < length (blocks q)"
    "nat (headOff q) < nat blockSize" "nat (tailOff q) < nat blockSize"
    "head q = blocks q ! nat (headIdx q)" "tail q = blocks q ! nat (tailIdx q)"
    "distinct (blocks q)"
    "\<And>j. j < length (blocks q) \<Longrightarrow> blocks q ! j < length (mem q)"
    "\<And>j. j < length (blocks q) \<Longrightarrow> length (mem q ! (blocks q ! j)) = nat blockSize"
    "0 \<le> headIdx q" "0 \<le> tailIdx q" "0 \<le> headOff q" "0 \<le> tailOff q"
proof -
  from assms have v: "valid q" and al: "allocated q" by (simp_all add: invar_def valid_def)
  show "\<And>j. j < length (blocks q) \<Longrightarrow> blocks q ! j < length (mem q)"
    using allocatedD[OF al] by simp
  show "length (mem q ! (blocks q ! j)) = nat blockSize" if "j < length (blocks q)" for j
  proof -
    have "int (length (mem q ! (blocks q ! j))) = blockSize"
      using allocatedD[OF al that] by simp
    then show ?thesis by (metis nat_int)
  qed
qed (use assms in \<open>auto simp: invar_def valid_def nat_less_iff\<close>)

lemma slot_store_tail:
  assumes inv: "invar q" and m: "store (mem q) (tail q) (tailOff q) x = Some m"
    and k: "k \<le> tpos q"
  shows "cell (nat blockSize) m (blocks q) (nat (headIdx q)) k = (if k = tpos q then x else slot q k)"
proof -
  note n = invar_nat[OF inv]
  let ?bs = "nat blockSize" and ?L = "length (blocks q)"
  let ?h = "nat (headIdx q)" and ?t = "nat (tailIdx q)" and ?to = "nat (tailOff q)"
  from inv obtain d where d: "d < ?L" "(?h + d) mod ?L = ?t" "tpos q = d * ?bs + ?to"
    "tpos q < ?L * ?bs" "tpos q div ?bs = d" "tpos q mod ?bs = ?to"
    by (rule tpos_view)
  have m': "m = (mem q)[blocks q ! ?t := (mem q ! (blocks q ! ?t))[?to := x]]"
    using m n(6) by (auto simp: store_def split: if_splits)
  have kL: "k < ?L * ?bs" using k d(4) by simp
  have c: "cell ?bs m (blocks q) ?h k =
      (if (?h + k div ?bs) mod ?L = ?t \<and> k mod ?bs = ?to then x else cell ?bs (mem q) (blocks q) ?h k)"
    unfolding m' by (rule cell_store[OF n(7) n(2) n(1) kL n(8)[OF n(2)] n(4) n(9)])
  have "((?h + k div ?bs) mod ?L = ?t \<and> k mod ?bs = ?to) \<longleftrightarrow> k = tpos q"
  proof
    assume a: "(?h + k div ?bs) mod ?L = ?t \<and> k mod ?bs = ?to"
    have "k div ?bs < ?L" using kL by (simp add: less_mult_imp_div_less)
    then have "k div ?bs = d"
      by (rule ring_inj[OF n(1) _ d(1)]) (simp add: a d(2))
    then have "k = d * ?bs + ?to" using a div_mult_mod_eq[of k ?bs] by simp
    then show "k = tpos q" by (simp add: d(3))
  next
    assume "k = tpos q"
    then show "(?h + k div ?bs) mod ?L = ?t \<and> k mod ?bs = ?to" by (simp add: d(2,5,6))
  qed
  then show ?thesis using c by (simp add: slot_def)
qed

lemma nat_succ_mod:
  assumes "0 \<le> a" "0 < L"
  shows "nat ((a + 1) mod int L) = (nat a + 1) mod L"
proof -
  have "nat ((a + 1) mod int L) = nat (a + 1) mod nat (int L)"
    using assms by (intro nat_mod_distrib) simp_all
  then show ?thesis using assms by (simp add: nat_add_distrib)
qed

lemma nat_succ_eq: "0 \<le> a \<Longrightarrow> a + 1 = b \<Longrightarrow> nat a + 1 = nat b"
  by linarith

lemma mod_wrap:
  fixes h L :: nat
  assumes "h < L"
  shows "(h + 1 + L) mod (L + 1) = h"
proof -
  have "h + 1 + L = h + (L + 1)" by simp
  then have "(h + 1 + L) mod (L + 1) = h mod (L + 1)" by (simp only: mod_add_self2)
  then show ?thesis using assms by simp
qed

lemma Push_items:
  assumes inv: "invar q"
  shows "\<exists>q'. Push q x = Some q' \<and> invar q' \<and> items q' = items q @ [Some x]"
proof -
  from inv have v: "valid q" by (simp add: invar_def)
  note n = invar_nat[OF inv]
  let ?bs = "nat blockSize" and ?L = "length (blocks q)"
  let ?h = "nat (headIdx q)" and ?t = "nat (tailIdx q)" and ?to = "nat (tailOff q)"
  from inv obtain d where d: "d < ?L" "(?h + d) mod ?L = ?t" "tpos q = d * ?bs + ?to"
    "nat (headOff q) \<le> tpos q" "tpos q < ?L * ?bs"
    by (rule tpos_view)
  have L0: "0 < ?L" using d(1) by linarith
  from Push_valid[OF v, of x] obtain q' where q': "Push q x = Some q'" "valid q'" by blast
  have "invar q' \<and> items q' = items q @ [Some x]"
    using v
  proof (cases rule: Push_cases[where x = x])
    case (plain m)
    with q' have eq: "q' = q\<lparr>mem := m, tailOff := tailOff q + 1\<rparr>" by simp
    have i': "invar q'" using inv q'(2) by (auto simp: invar_def eq)
    have "tpos q' = d * ?bs + nat (tailOff q')"
      by (rule tpos_unique[OF i']) (simp_all add: eq d)
    then have tp: "tpos q' = Suc (tpos q)"
      using n(13) by (simp add: eq d(3) nat_add_distrib)
    have sl: "slot q' k = (if k = tpos q then Some x else slot q k)" if "k \<le> tpos q" for k
      using slot_store_tail[OF inv plain(1) that] by (simp add: slot_def eq)
    have "items q' = items q @ [Some x]"
      by (rule items_snoc[OF tp _ d(4)]) (simp_all add: sl, simp add: eq)
    with i' show ?thesis by simp
  next
    case (wrap m)
    let ?i = "(tailIdx q + 1) mod int ?L"
    from wrap q' have eq: "q' = q\<lparr>mem := m, tailOff := 0, tailIdx := ?i, tail := blocks q ! nat ?i\<rparr>"
      by simp
    have ni: "nat ?i = (?t + 1) mod ?L" using n(11) L0 by (rule nat_succ_mod)
    have ne: "(?t + 1) mod ?L \<noteq> ?h"
    proof
      assume "(?t + 1) mod ?L = ?h"
      then have "int (nat ?i) = int ?h" by (simp add: ni)
      then have "?i = headIdx q" using n(10) L0 by simp
      with wrap(3) show False by simp
    qed
    have step: "(?h + (d + 1)) mod ?L = (?t + 1) mod ?L"
      using d(2) by (metis add.assoc mod_add_left_eq)
    have d1: "d + 1 < ?L"
    proof (rule ccontr)
      assume "\<not> d + 1 < ?L"
      then have "d + 1 = ?L" using d(1) by linarith
      then have "(?h + (d + 1)) mod ?L = ?h" using n(1) by simp
      with step ne show False by simp
    qed
    have i': "invar q'"
      using inv q'(2) wrap(3) by (auto simp: invar_def eq)
    have "tpos q' = (d + 1) * ?bs + nat (tailOff q')"
    proof (rule tpos_unique[OF i'])
      show "d + 1 < length (blocks q')" using d1 by (simp add: eq)
      show "(nat (headIdx q') + (d + 1)) mod length (blocks q') = nat (tailIdx q')"
        using step ni by (simp add: eq)
    qed
    moreover have "?to + 1 = ?bs" using n(13) wrap(2) by (rule nat_succ_eq)
    ultimately have tp: "tpos q' = Suc (tpos q)"
      by (simp add: eq d(3))
    have sl: "slot q' k = (if k = tpos q then Some x else slot q k)" if "k \<le> tpos q" for k
      using slot_store_tail[OF inv wrap(1) that] by (simp add: slot_def eq)
    have "items q' = items q @ [Some x]"
      by (rule items_snoc[OF tp _ d(4)]) (simp_all add: sl, simp add: eq)
    with i' show ?thesis by simp
  next
    case (grow m)
    let ?bl = "take ?h (blocks q) @ [length m] @ drop ?h (blocks q)"
    from grow q' have eq: "q' = q\<lparr>mem := m @ [replicate ?bs None], tailOff := 0,
          tailIdx := headIdx q, blocks := ?bl,
          headIdx := headIdx q + 1, head := head q, tail := length m\<rparr>"
      by simp
    have lm: "length m = length (mem q)" using store_allocated(1)[OF grow(1)] .
    have "(?t + 1) mod ?L = ?h"
      using nat_succ_mod[OF n(11) L0] grow(3) by simp
    then have step: "(?h + (d + 1)) mod ?L = (?h + 0) mod ?L"
      using d(2) n(1) by (metis add.assoc mod_add_left_eq add_0_right)
    have d1: "d + 1 = ?L"
    proof (rule ccontr)
      assume "d + 1 \<noteq> ?L"
      then have "d + 1 < ?L" using d(1) by linarith
      then have "d + 1 = 0" by (rule ring_inj[OF n(1) _ L0 step])
      then show False by simp
    qed
    have fresh: "length m \<notin> set (blocks q)"
    proof
      assume "length m \<in> set (blocks q)"
      then obtain j where "j < ?L" "blocks q ! j = length m" by (auto simp: in_set_conv_nth)
      with n(8)[of j] show False by (simp add: lm)
    qed
    have "distinct (take ?h (blocks q) @ drop ?h (blocks q))" using n(7) by simp
    then have "distinct (take ?h (blocks q)) \<and> distinct (drop ?h (blocks q)) \<and>
        set (take ?h (blocks q)) \<inter> set (drop ?h (blocks q)) = {}"
      by (simp only: distinct_append)
    then have dist: "distinct ?bl"
      using fresh by (auto dest: in_set_takeD in_set_dropD)
    have i': "invar q'"
      using q'(2) dist by (simp add: invar_def eq)
    have "tpos q' = ?L * ?bs + nat (tailOff q')"
    proof (rule tpos_unique[OF i'])
      show "?L < length (blocks q')" by (simp add: eq)
      have "(?h + 1 + ?L) mod (?L + 1) = ?h" using n(1) by (rule mod_wrap)
      moreover have "length (blocks q') = ?L + 1" using n(1) by (simp add: eq)
      moreover have "nat (headIdx q') = ?h + 1" using n(10) by (simp add: eq nat_add_distrib)
      moreover have "nat (tailIdx q') = ?h" by (simp add: eq)
      ultimately show "(nat (headIdx q') + ?L) mod length (blocks q') = nat (tailIdx q')"
        by simp
    qed
    moreover have "?to + 1 = ?bs" using n(13) grow(2) by (rule nat_succ_eq)
    ultimately have tp: "tpos q' = Suc (tpos q)"
      using d1 by (simp add: eq d(3) flip: d1)
    have sl: "slot q' k = (if k = tpos q then Some x else slot q k)" if "k \<le> tpos q" for k
    proof -
      have kL: "k < ?L * ?bs" using that d(5) by simp
      have a: "\<And>j. j < ?L \<Longrightarrow> blocks q ! j < length m" using n(8) by (simp add: lm)
      have "slot q' k = cell ?bs (m @ [replicate ?bs None]) ?bl (?h + 1) k"
        using n(10) by (simp add: slot_def eq nat_add_distrib)
      also have "\<dots> = cell ?bs m (blocks q) ?h k"
        by (rule cell_insert[OF n(1) kL a])
      finally show ?thesis using slot_store_tail[OF inv grow(1) that] by simp
    qed
    have "items q' = items q @ [Some x]"
      by (rule items_snoc[OF tp _ d(4)]) (simp_all add: sl, simp add: eq)
    with i' show ?thesis by simp
  qed
  with q'(1) show ?thesis by blast
qed

lemma slot_store_head:
  assumes inv: "invar q" and m: "store (mem q) (head q) (headOff q) x = Some m"
    and k: "nat (headOff q) < k" "k < tpos q"
  shows "cell (nat blockSize) m (blocks q) (nat (headIdx q)) k = slot q k"
proof -
  note n = invar_nat[OF inv]
  let ?bs = "nat blockSize" and ?L = "length (blocks q)"
  let ?h = "nat (headIdx q)" and ?ho = "nat (headOff q)"
  from inv have tL: "tpos q < ?L * ?bs" by (rule tpos_view)
  have L0: "0 < ?L" using n(1) by linarith
  have m': "m = (mem q)[blocks q ! ?h := (mem q ! (blocks q ! ?h))[?ho := x]]"
    using m n(5) by (auto simp: store_def split: if_splits)
  have kL: "k < ?L * ?bs" using k tL by simp
  have c: "cell ?bs m (blocks q) ?h k =
      (if (?h + k div ?bs) mod ?L = ?h \<and> k mod ?bs = ?ho then x else cell ?bs (mem q) (blocks q) ?h k)"
    unfolding m' by (rule cell_store[OF n(7) n(1) n(1) kL n(8)[OF n(1)] n(3) n(9)])
  have "\<not> ((?h + k div ?bs) mod ?L = ?h \<and> k mod ?bs = ?ho)"
  proof
    assume a: "(?h + k div ?bs) mod ?L = ?h \<and> k mod ?bs = ?ho"
    have "k div ?bs < ?L" using kL by (simp add: less_mult_imp_div_less)
    then have "k div ?bs = 0"
      by (rule ring_inj[OF n(1) _ L0]) (use a n(1) in simp)
    then have "k = ?ho" using a div_mult_mod_eq[of k ?bs] by simp
    with k(1) show False by simp
  qed
  then have "cell ?bs m (blocks q) ?h k = cell ?bs (mem q) (blocks q) ?h k"
    unfolding c by (rule if_not_P)
  then show ?thesis by (simp add: slot_def)
qed

lemma slot_head:
  assumes inv: "invar q"
  shows "slot q (nat (headOff q)) = mem q ! head q ! nat (headOff q)"
  using invar_nat(1,3,5)[OF inv] by (simp add: slot_def cell_def)

lemma Pop_items:
  assumes inv: "invar q" and ne: "0 < Size q"
  shows "\<exists>q'. Pop q = Some (hd (items q), q') \<and> invar q' \<and> items q' = tl (items q)"
proof -
  from inv have v: "valid q" by (simp add: invar_def)
  note n = invar_nat[OF inv]
  let ?bs = "nat blockSize" and ?L = "length (blocks q)"
  let ?h = "nat (headIdx q)" and ?t = "nat (tailIdx q)"
  let ?ho = "nat (headOff q)" and ?to = "nat (tailOff q)"
  from inv obtain d where d: "d < ?L" "(?h + d) mod ?L = ?t" "tpos q = d * ?bs + ?to"
    "headOff q + Size q = int (tpos q)"
    by (rule tpos_view)
  have L0: "0 < ?L" using d(1) by linarith
  have lt: "?ho < tpos q" using d(4) ne n(12) by linarith
  have its: "items q = slot q ?ho # map (slot q) [Suc ?ho ..< tpos q]"
    using lt by (simp add: items_def upt_conv_Cons)
  have hd: "hd (items q) = mem q ! head q ! ?ho"
    by (simp add: its slot_head[OF inv])
  from Pop_valid[OF v] obtain r q' where q': "Pop q = Some (r, q')" "valid q'" by blast
  have "r = hd (items q) \<and> invar q' \<and> items q' = tl (items q)"
    using v
  proof (cases rule: Pop_cases)
    case (plain m)
    with q' have r: "r = mem q ! head q ! ?ho" and eq: "q' = q\<lparr>mem := m, headOff := headOff q + 1\<rparr>"
      by simp_all
    have "headOff q + 1 \<le> tailOff q" if "headIdx q = tailIdx q"
    proof -
      have "(?h + d) mod ?L = (?h + 0) mod ?L" using that d(2) n(1) by simp
      then have "d = 0" by (rule ring_inj[OF n(1) d(1) L0])
      then have "?ho < ?to" using lt d(3) by simp
      then show ?thesis using n(12,13) by linarith
    qed
    then have i': "invar q'" using inv q'(2) by (simp add: invar_def eq)
    have "tpos q' = d * ?bs + nat (tailOff q')"
      by (rule tpos_unique[OF i']) (simp_all add: eq d)
    then have tp: "tpos q' = tpos q" by (simp add: eq d(3))
    have ho': "nat (headOff q') = Suc ?ho" using n(12) by (simp add: eq nat_add_distrib)
    have "slot q' k = slot q k" if "?ho < k" "k < tpos q" for k
      using slot_store_head[OF inv plain(1) that] by (simp add: slot_def eq)
    then have "items q' = map (slot q) [Suc ?ho ..< tpos q]"
      by (simp add: items_def tp ho')
    with i' r show ?thesis by (simp add: its slot_head[OF inv])
  next
    case (wrap m)
    let ?i = "(headIdx q + 1) mod int ?L"
    from wrap q' have r: "r = mem q ! head q ! ?ho"
      and eq: "q' = q\<lparr>mem := m, headOff := 0, headIdx := ?i, head := blocks q ! nat ?i\<rparr>"
      by simp_all
    have ni: "nat ?i = (?h + 1) mod ?L" using n(10) L0 by (rule nat_succ_mod)
    have bs: "?ho + 1 = ?bs" using n(12) wrap(2) by (rule nat_succ_eq)
    have i': "invar q'" using inv q'(2) n(13) by (simp add: invar_def eq)
    have d0: "0 < d"
    proof (rule ccontr)
      assume "\<not> 0 < d"
      then have "tpos q = ?to" using d(3) by simp
      then show False using lt n(4) bs by linarith
    qed
    then obtain e where e: "d = Suc e" by (cases d) simp_all
    have "tpos q' = e * ?bs + nat (tailOff q')"
    proof (rule tpos_unique[OF i'])
      show "e < length (blocks q')" using d(1) e by (simp add: eq)
      have "((?h + 1) mod ?L + e) mod ?L = (?h + 1 + e) mod ?L"
        by (rule mod_add_left_eq)
      also have "\<dots> = ?t" using d(2) by (simp add: e)
      finally show "(nat (headIdx q') + e) mod length (blocks q') = nat (tailIdx q')"
        by (simp add: eq ni)
    qed
    then have tp: "tpos q' + ?bs = tpos q" by (simp add: eq d(3) e)
    have sl: "slot q' k = slot q (k + ?bs)" if "k < tpos q'" for k
    proof -
      have "slot q' k = cell ?bs m (blocks q) ((?h + 1) mod ?L) k"
        by (simp add: slot_def eq ni)
      also have "\<dots> = cell ?bs m (blocks q) ?h (k + ?bs)"
        using n(3) by (intro cell_advance) linarith
      also have "\<dots> = slot q (k + ?bs)"
        by (rule slot_store_head[OF inv wrap(1)]) (use that tp bs in linarith)+
      finally show ?thesis .
    qed
    have "[Suc ?ho ..< tpos q] = map (\<lambda>k. k + ?bs) [0 ..< tpos q']"
      using bs tp by (simp add: map_add_upt)
    then have "map (slot q) [Suc ?ho ..< tpos q] = map (\<lambda>k. slot q (k + ?bs)) [0 ..< tpos q']"
      by (simp add: comp_def)
    also have "\<dots> = items q'"
      using sl by (simp add: items_def eq)
    finally show ?thesis using i' r by (simp add: its slot_head[OF inv])
  qed
  with q'(1) show ?thesis by blast
qed

lemma New_fields:
  "headIdx (New :: 'a Queue) = 0" "tailIdx (New :: 'a Queue) = 0"
  "headOff (New :: 'a Queue) = 0" "tailOff (New :: 'a Queue) = 0"
  "blocks (New :: 'a Queue) = [0]"
  by (simp_all add: New_def make_block_def)

lemma invar_New: "invar (New :: 'a Queue)"
  unfolding invar_def using valid_New[where 'a = 'a] by (simp add: New_fields)

lemma Size_items:
  assumes inv: "invar q"
  shows "Size q = int (length (items q))"
proof -
  from inv obtain d :: nat where "headOff q + Size q = int (tpos q)" "nat (headOff q) \<le> tpos q"
    by (rule tpos_view)
  moreover have "length (items q) = tpos q - nat (headOff q)" by (simp add: items_def)
  ultimately show ?thesis using invar_nat(12)[OF inv] by linarith
qed

lemma items_New: "items (New :: 'a Queue) = []"
proof -
  have "Size (New :: 'a Queue) = 0" by (simp add: Size_def New_fields)
  then show ?thesis using Size_items[OF invar_New, where 'a = 'a] by simp
qed

lemma Empty_Size:
  assumes inv: "invar q"
  shows "Empty q \<longleftrightarrow> Size q = 0"
proof -
  note n = invar_nat[OF inv]
  let ?bs = "nat blockSize" and ?L = "length (blocks q)"
  let ?h = "nat (headIdx q)" and ?t = "nat (tailIdx q)"
  from inv obtain d where d: "d < ?L" "(?h + d) mod ?L = ?t" "tpos q = d * ?bs + nat (tailOff q)"
    "headOff q + Size q = int (tpos q)"
    by (rule tpos_view)
  have L0: "0 < ?L" using d(1) by linarith
  have hd: "?h = ?t \<longleftrightarrow> d = 0"
  proof
    assume "?h = ?t"
    then have "(?h + d) mod ?L = (?h + 0) mod ?L" using d(2) n(1) by simp
    then show "d = 0" by (rule ring_inj[OF n(1) d(1) L0])
  next
    assume "d = 0"
    then show "?h = ?t" using d(2) n(1) by simp
  qed
  have idx: "headIdx q = tailIdx q \<longleftrightarrow> ?h = ?t" using n(10,11) by auto
  show ?thesis
  proof (cases "d = 0")
    case True
    then have "int (tpos q) = tailOff q" using d(3) n(13) by simp
    then show ?thesis using d(4) True hd idx by (auto simp: Empty_def)
  next
    case False
    then have "?bs \<le> d * ?bs" by (intro le_mult_pos) simp
    then have "nat (headOff q) < tpos q" using n(3) d(3) by linarith
    then have "Size q \<noteq> 0" using d(4) n(12) by linarith
    then show ?thesis using False hd idx by (simp add: Empty_def)
  qed
qed

lemma pushes_items:
  "invar q \<Longrightarrow> \<exists>q'. pushes q vs = Some q' \<and> invar q' \<and> items q' = items q @ map Some vs"
proof (induction vs arbitrary: q)
  case Nil
  then show ?case by simp
next
  case (Cons v vs)
  from Push_items[OF Cons.prems, of v] obtain q1 where
    q1: "Push q v = Some q1" "invar q1" "items q1 = items q @ [Some v]" by blast
  from Cons.IH[OF q1(2)] obtain q' where
    "pushes q1 vs = Some q'" "invar q'" "items q' = items q1 @ map Some vs" by blast
  then show ?case using q1 by simp
qed

lemma pops_items:
  "invar q \<Longrightarrow> n \<le> length (items q) \<Longrightarrow>
   \<exists>q'. pops q n = Some (take n (items q), q') \<and> invar q' \<and> items q' = drop n (items q)"
proof (induction n arbitrary: q)
  case 0
  then show ?case by simp
next
  case (Suc n)
  from Suc.prems(2) obtain x xs where xs: "items q = x # xs" by (cases "items q") simp_all
  then have "0 < Size q" by (simp add: Size_items[OF Suc.prems(1)])
  from Pop_items[OF Suc.prems(1) this] obtain q1 where
    q1: "Pop q = Some (hd (items q), q1)" "invar q1" "items q1 = tl (items q)" by blast
  have "n \<le> length (items q1)" using Suc.prems(2) by (simp add: q1(3))
  from Suc.IH[OF q1(2) this] obtain q' where
    q': "pops q1 n = Some (take n (items q1), q')" "invar q'" "items q' = drop n (items q1)" by blast
  show ?case using q1 q' by (simp add: xs)
qed

text \<open>
  C7: any values pushed onto a fresh queue and then popped, as many pops as pushes, come
  out in the order they went in. The list is arbitrary, so it may fill any number of
  blocks and make the ring grow.
\<close>

theorem queue_fifo:
  "\<exists>q1 q2. pushes (New :: 'a Queue) vs = Some q1 \<and> pops q1 (length vs) = Some (map Some vs, q2)"
proof -
  from pushes_items[OF invar_New, of vs] obtain q1 :: "'a Queue" where
    q1: "pushes New vs = Some q1" "invar q1" "items q1 = items New @ map Some vs"
    by blast
  have len: "length vs \<le> length (items q1)" by (simp add: q1(3))
  from pops_items[OF q1(2) len] obtain q2 where
    "pops q1 (length vs) = Some (take (length vs) (items q1), q2)" by blast
  then have "pops q1 (length vs) = Some (map Some vs, q2)" by (simp add: q1(3) items_New)
  with q1(1) show ?thesis by blast
qed

theorem queue_fifo_witness:
  "\<exists>q1 q2. pushes (New :: nat Queue) [1, 2, 3] = Some q1 \<and>
     pops q1 (length [1, 2, 3 :: nat]) = Some (map Some [1, 2, 3], q2)"
  by (rule queue_fifo [of "[1, 2, 3 :: nat]"])

lemma run_items:
  "invar q \<Longrightarrow> legal (length (items q)) ops \<Longrightarrow>
   \<exists>q'. run q ops = Some q' \<and> invar q' \<and>
     int (length (items q')) = int (length (items q)) + int (num_pushes ops) - int (num_pops ops)"
proof (induction ops arbitrary: q)
  case Nil
  then show ?case by simp
next
  case (Cons a ops)
  show ?case
  proof (cases a)
    case (OpPush v)
    from Push_items[OF Cons.prems(1), of v] obtain q1 where
      q1: "Push q v = Some q1" "invar q1" "items q1 = items q @ [Some v]" by blast
    have "legal (length (items q1)) ops" using Cons.prems(2) by (simp add: OpPush q1(3))
    from Cons.IH[OF q1(2) this] obtain q' where
      "run q1 ops = Some q'" "invar q'"
      "int (length (items q')) = int (length (items q1)) + int (num_pushes ops) - int (num_pops ops)"
      by blast
    then show ?thesis by (simp add: OpPush q1)
  next
    case OpPop
    from Cons.prems(2) obtain x xs where xs: "items q = x # xs"
      by (cases "items q") (simp_all add: OpPop)
    then have "0 < Size q" by (simp add: Size_items[OF Cons.prems(1)])
    from Pop_items[OF Cons.prems(1) this] obtain q1 where
      q1: "Pop q = Some (hd (items q), q1)" "invar q1" "items q1 = tl (items q)" by blast
    have "legal (length (items q1)) ops" using Cons.prems(2) by (simp add: OpPop q1(3))
    from Cons.IH[OF q1(2) this] obtain q' where
      "run q1 ops = Some q'" "invar q'"
      "int (length (items q')) = int (length (items q1)) + int (num_pushes ops) - int (num_pops ops)"
      by blast
    then show ?thesis by (simp add: OpPop q1 xs)
  qed
qed

text \<open>
  C8: after a run of pushes and pops from a fresh queue in which no pop meets an empty
  queue, \<^verbatim>\<open>Size\<close> is the number of pushes minus the number of pops, and \<^verbatim>\<open>Empty\<close> holds
  exactly when \<^verbatim>\<open>Size\<close> is zero.
\<close>

theorem queue_size_tracks:
  assumes "legal 0 ops"
  shows "\<exists>q. run (New :: 'a Queue) ops = Some q \<and>
           Size q = int (num_pushes ops) - int (num_pops ops) \<and>
           (Empty q \<longleftrightarrow> Size q = 0)"
proof -
  have "legal (length (items (New :: 'a Queue))) ops" using assms by (simp add: items_New)
  from run_items[OF invar_New this] obtain q :: "'a Queue" where
    q: "run New ops = Some q" "invar q"
       "int (length (items q)) = int (length (items (New :: 'a Queue))) + int (num_pushes ops) - int (num_pops ops)"
    by blast
  have "Size q = int (num_pushes ops) - int (num_pops ops)"
    using q(3) by (simp add: Size_items[OF q(2)] items_New)
  with q(1) Empty_Size[OF q(2)] show ?thesis by blast
qed

theorem queue_size_tracks_witness:
  "legal 0 [OpPush (1 :: nat), OpPush 2, OpPop] \<and>
   (\<exists>q. run (New :: nat Queue) [OpPush 1, OpPush 2, OpPop] = Some q \<and>
      Size q = 1 \<and> (Empty q \<longleftrightarrow> Size q = 0))"
  using queue_size_tracks [of "[OpPush (1 :: nat), OpPush 2, OpPop]"] by simp

section \<open>The link: framing, MAC chain and shutdown\<close>

text \<open>
  C2: for a message with a non-empty payload that is not flagged secure, \<^verbatim>\<open>SendDirect\<close>
  returns the error "unsecured data, send denied" and leaves the transport as it was:
  no frame is enqueued and none is committed.
\<close>

theorem send_unsecured_denied:
  assumes "\<not> Secure msg" and "Data msg \<noteq> []"
  shows "fst (SendDirect gob l msg) = Some ''unsecured data, send denied'' \<and>
         socket (snd (SendDirect gob l msg)) = socket l"
  using assms by (simp add: SendDirect_def)

text \<open>
  C10: the rejection of an unsecured message changes nothing in the link. The outbound
  cipher stream, the outbound MAC and the outbound buffer are as before the call, and
  any later send behaves as if the rejected call had not been made.
\<close>

theorem send_unsecured_atomic:
  assumes "\<not> Secure msg" and "Data msg \<noteq> []"
  shows "snd (SendDirect gob l msg) = l \<and>
         outCipher (snd (SendDirect gob l msg)) = outCipher l \<and>
         outMacer (snd (SendDirect gob l msg)) = outMacer l \<and>
         outBuffer (snd (SendDirect gob l msg)) = outBuffer l \<and>
         SendDirect gob (snd (SendDirect gob l msg)) msg' = SendDirect gob l msg'"
  using assms by (simp add: SendDirect_def)

lemma equal_loop_eq: "length a = length b \<Longrightarrow> fst (equal_loop a b) = (a = b)"
  by (induction a b rule: equal_loop.induct) (auto split: prod.splits)

lemma bytes_Equal_iff: "bytes_Equal a b \<longleftrightarrow> a = b"
  by (auto simp: bytes_Equal_def bytes_Equal_steps_def equal_loop_eq)

text \<open>
  C4, as amended: when the three frames arrive and the tag differs from the inbound
  digest, \<^verbatim>\<open>RecvDirect\<close> returns no message and the error "mac mismatch: have D, want T."
  with the computed digest D and the received tag T; the test is \<^verbatim>\<open>bytes.Equal\<close>, plain
  equality of the two byte slices.
\<close>

theorem recv_mac_mismatch:
  assumes "stream_Recv (socket l) = (Inr h, s1)"
    and "stream_Recv s1 = (Inr d, s2)"
    and "stream_Recv s2 = (Inr t, s3)"
    and "t \<noteq> keyed (inMacer l) (written (inMacer l) @ h @ d)"
  shows "\<exists>l'. RecvDirect gob l =
           (Inl (''mac mismatch: have '' @ fmt_v (keyed (inMacer l) (written (inMacer l) @ h @ d)) @
                 '', want '' @ fmt_v t @ ''.''), l') \<and>
           bytes_Equal t (keyed (inMacer l) (written (inMacer l) @ h @ d)) =
             (t = keyed (inMacer l) (written (inMacer l) @ h @ d))"
  using assms by (simp add: RecvDirect_def bytes_Equal_iff mac_Write_def mac_Sum_def Let_def)

text \<open>
  C4, as stated, asks for a constant-time comparison. \<^verbatim>\<open>bytes.Equal\<close> is not one: two
  tags of the same length, both wrong for the digest \<open>[0, 0]\<close>, are rejected after one
  and after two byte comparisons.
\<close>

theorem mac_compare_not_constant_time:
  "length [1, 0 :: byte] = length [0, 1 :: byte] \<and>
   bytes_Equal_steps [1, 0] [0, 0] = (False, 1) \<and>
   bytes_Equal_steps [0, 1] [0, 0] = (False, 2)"
  by (simp add: bytes_Equal_steps_def)

lemma stream_Send_ok:
  assumes "stream_Send s f = (None, s')"
  shows "outq s' = outq s @ [f]" "wire s' = wire s" "inq s' = inq s"
  using assms by (auto simp: stream_Send_def next_fault_def split: list.splits option.splits)

lemma stream_Flush_ok:
  assumes "stream_Flush s = (None, s')"
  shows "outq s' = []" "wire s' = wire s @ outq s" "inq s' = inq s"
  using assms by (auto simp: stream_Flush_def next_fault_def split: list.splits option.splits)

lemma stream_Recv_ok:
  assumes "stream_Recv s = (Inr f, s')"
  shows "inq s = f # inq s'" "outq s' = outq s" "wire s' = wire s"
  using assms by (auto simp: stream_Recv_def next_fault_def split: list.splits option.splits)

lemma SendDirect_sent:
  assumes ok: "SendDirect gob l msg = (None, l')"
  obtains out enc ct c where
    "Encode gob (outCoder l) (Head msg) = (None, out, enc)"
    "XORKeyStream (outCipher l) (outBuffer l @ out) = (ct, c)"
    "wire (socket l') = wire (socket l) @ outq (socket l) @
       [ct, Data msg, keyed (outMacer l) (written (outMacer l) @ ct @ Data msg)]"
    "outMacer l' = (outMacer l)\<lparr>written := written (outMacer l) @ ct @ Data msg\<rparr>"
    "outCoder l' = enc" "outCipher l' = c" "outBuffer l' = []" "outq (socket l') = []"
proof -
  from ok have sec: "Secure msg \<or> Data msg = []"
    by (auto simp: SendDirect_def split: if_splits)
  obtain err out enc where enc: "Encode gob (outCoder l) (Head msg) = (err, out, enc)"
    by (cases "Encode gob (outCoder l) (Head msg)") auto
  with ok sec have err: "err = None"
    by (cases err) (auto simp: SendDirect_def Let_def)
  obtain ct c where x: "XORKeyStream (outCipher l) (outBuffer l @ out) = (ct, c)"
    by (cases "XORKeyStream (outCipher l) (outBuffer l @ out)") auto
  let ?m = "mac_Write (mac_Write (outMacer l) ct) (Data msg)"
  let ?l3 = "l\<lparr>outCoder := enc, outBuffer := ct, outCipher := c, outMacer := ?m\<rparr>"
  from ok sec enc err x obtain s1 s2 s3 s4 where
    s: "stream_Send (socket l) ct = (None, s1)" "stream_Send s1 (Data msg) = (None, s2)"
       "stream_Send s2 (mac_Sum ?m) = (None, s3)" "stream_Flush s3 = (None, s4)"
    and l': "l' = ?l3\<lparr>socket := s4, outBuffer := []\<rparr>"
    by (auto simp: SendDirect_def Let_def split: prod.splits option.splits)
  note a = stream_Send_ok[OF s(1)] and b = stream_Send_ok[OF s(2)]
    and c = stream_Send_ok[OF s(3)] and d = stream_Flush_ok[OF s(4)]
  show ?thesis
  proof (rule that[of out enc ct c])
    show "Encode gob (outCoder l) (Head msg) = (None, out, enc)" using enc err by simp
    show "XORKeyStream (outCipher l) (outBuffer l @ out) = (ct, c)" by (rule x)
    show "wire (socket l') = wire (socket l) @ outq (socket l) @
       [ct, Data msg, keyed (outMacer l) (written (outMacer l) @ ct @ Data msg)]"
      by (simp add: l' a b c d mac_Sum_def mac_Write_def)
    show "outMacer l' = (outMacer l)\<lparr>written := written (outMacer l) @ ct @ Data msg\<rparr>"
      by (simp add: l' mac_Write_def)
    show "outCoder l' = enc" "outCipher l' = c" "outBuffer l' = []" "outq (socket l') = []"
      by (simp_all add: l' a b c d)
  qed
qed

lemma mac_chain_run_frames:
  "mac_chain (keyed m) (written m) (run_frames gob enc c buf m msgs)"
proof (induction msgs arbitrary: enc c buf m)
  case Nil
  show ?case by simp
next
  case (Cons msg msgs)
  obtain err out enc' where e: "Encode gob enc (Head msg) = (err, out, enc')"
    by (cases "Encode gob enc (Head msg)") auto
  obtain ct c' where x: "XORKeyStream c (buf @ out) = (ct, c')"
    by (cases "XORKeyStream c (buf @ out)") auto
  let ?m = "m\<lparr>written := written m @ ct @ Data msg\<rparr>"
  have "mac_chain (keyed ?m) (written ?m) (run_frames gob enc' c' [] ?m msgs)"
    by (rule Cons)
  then show ?case by (simp add: e x)
qed

lemma length_run_frames: "length (run_frames gob enc c buf m msgs) = 3 * length msgs"
  by (induction msgs arbitrary: enc c buf m) (simp_all split: prod.splits)

lemma send_all_frames:
  "send_all gob a msgs = (None, a') \<Longrightarrow> outq (socket a) = [] \<Longrightarrow>
   wire (socket a') = wire (socket a) @
     run_frames gob (outCoder a) (outCipher a) (outBuffer a) (outMacer a) msgs \<and>
   outMacer a' = (outMacer a)\<lparr>written := written (outMacer a) @
     mac_input (run_frames gob (outCoder a) (outCipher a) (outBuffer a) (outMacer a) msgs)\<rparr> \<and>
   (msgs \<noteq> [] \<longrightarrow> outBuffer a' = [])"
proof (induction msgs arbitrary: a)
  case Nil
  then show ?case by simp
next
  case (Cons msg msgs)
  from Cons.prems(1) obtain a1 where
    s: "SendDirect gob a msg = (None, a1)" and r: "send_all gob a1 msgs = (None, a')"
    by (auto split: prod.splits option.splits)
  from s obtain out enc ct c where
    e: "Encode gob (outCoder a) (Head msg) = (None, out, enc)"
    and x: "XORKeyStream (outCipher a) (outBuffer a @ out) = (ct, c)"
    and w: "wire (socket a1) = wire (socket a) @ outq (socket a) @
       [ct, Data msg, keyed (outMacer a) (written (outMacer a) @ ct @ Data msg)]"
    and m: "outMacer a1 = (outMacer a)\<lparr>written := written (outMacer a) @ ct @ Data msg\<rparr>"
    and f: "outCoder a1 = enc" "outCipher a1 = c" "outBuffer a1 = []" "outq (socket a1) = []"
    by (rule SendDirect_sent)
  let ?rest = "run_frames gob enc c [] (outMacer a1) msgs"
  from Cons.IH[OF r f(4)] have
    ih: "wire (socket a') = wire (socket a1) @ ?rest"
      "outMacer a' = (outMacer a1)\<lparr>written := written (outMacer a1) @ mac_input ?rest\<rparr>"
      "msgs \<noteq> [] \<longrightarrow> outBuffer a' = []"
    by (simp_all add: f)
  have b: "outBuffer a' = []"
  proof (cases msgs)
    case Nil
    with r f(3) show ?thesis by simp
  next
    case Cons
    with ih(3) show ?thesis by simp
  qed
  have rf: "run_frames gob (outCoder a) (outCipher a) (outBuffer a) (outMacer a) (msg # msgs) =
      [ct, Data msg, keyed (outMacer a) (written (outMacer a) @ ct @ Data msg)] @ ?rest"
    by (simp add: e x m)
  show ?case
    unfolding rf using ih(1,2) b by (simp add: w m Cons.prems(2))
qed


lemma RecvDirect_taken:
  assumes ok: "RecvDirect gob l = (Inr msg, l')"
  obtains h pt c rest dec where
    "inq (socket l) =
       h # Data msg # keyed (inMacer l) (written (inMacer l) @ h @ Data msg) # inq (socket l')"
    "XORKeyStream (inCipher l) h = (pt, c)"
    "Decode gob (inCoder l) (inBuffer l @ pt) = (Inr (Head msg), rest, dec)"
    "inMacer l' = (inMacer l)\<lparr>written := written (inMacer l) @ h @ Data msg\<rparr>"
    "inCoder l' = dec" "inCipher l' = c" "inBuffer l' = rest"
proof -
  from ok obtain h s1 where r1: "stream_Recv (socket l) = (Inr h, s1)"
    by (auto simp: RecvDirect_def split: prod.splits sum.splits)
  from ok r1 obtain d s2 where r2: "stream_Recv s1 = (Inr d, s2)"
    by (auto simp: RecvDirect_def Let_def split: prod.splits sum.splits)
  from ok r1 r2 obtain t s3 where r3: "stream_Recv s2 = (Inr t, s3)"
    by (auto simp: RecvDirect_def Let_def split: prod.splits sum.splits)
  let ?m = "mac_Write (mac_Write (inMacer l) h) d"
  from ok r1 r2 r3 have eq: "bytes_Equal t (mac_Sum ?m)"
    by (auto simp: RecvDirect_def Let_def split: if_splits)
  then have t: "t = keyed (inMacer l) (written (inMacer l) @ h @ d)"
    by (simp add: bytes_Equal_iff mac_Sum_def mac_Write_def)
  obtain pt c where x: "XORKeyStream (inCipher l) h = (pt, c)"
    by (cases "XORKeyStream (inCipher l) h") auto
  obtain res rest dec where dc: "Decode gob (inCoder l) (inBuffer l @ pt) = (res, rest, dec)"
    by (cases "Decode gob (inCoder l) (inBuffer l @ pt)") auto
  from ok r1 r2 r3 eq x dc have
    m: "res = Inr (Head msg)" "Data msg = d" "inMacer l' = ?m" "socket l' = s3"
      "inCoder l' = dec" "inCipher l' = c" "inBuffer l' = rest"
    by (auto simp: RecvDirect_def Let_def KnownSecure_def split: sum.splits)
  have q: "inq (socket l) = h # d # t # inq s3"
    using stream_Recv_ok(1)[OF r1] stream_Recv_ok(1)[OF r2] stream_Recv_ok(1)[OF r3] by simp
  show ?thesis
  proof (rule that[of h pt c rest dec])
    show "inq (socket l) =
       h # Data msg # keyed (inMacer l) (written (inMacer l) @ h @ Data msg) # inq (socket l')"
      using q t m(2,4) by simp
    show "XORKeyStream (inCipher l) h = (pt, c)" by (rule x)
    show "Decode gob (inCoder l) (inBuffer l @ pt) = (Inr (Head msg), rest, dec)"
      using dc m(1) by simp
    show "inMacer l' = (inMacer l)\<lparr>written := written (inMacer l) @ h @ Data msg\<rparr>"
      using m(2,3) by (simp add: mac_Write_def)
    show "inCoder l' = dec" "inCipher l' = c" "inBuffer l' = rest" by (rule m)+
  qed
qed

lemma mac_chain_taken_frames:
  "mac_chain (keyed m) (written m) (taken_frames m hs msgs)"
proof (induction m hs msgs rule: taken_frames.induct)
  case (1 m h hs msg msgs)
  then show ?case by simp
qed simp_all

lemma recv_all_frames:
  "recv_all gob b n = (Inr rs, b') \<Longrightarrow>
   \<exists>hs. length hs = n \<and> length rs = n \<and>
     inq (socket b) = taken_frames (inMacer b) hs rs @ inq (socket b') \<and>
     read_heads gob (inCoder b) (inCipher b) (inBuffer b) hs = map (\<lambda>r. Inr (Head r)) rs \<and>
     inMacer b' = (inMacer b)\<lparr>written := written (inMacer b) @
       mac_input (taken_frames (inMacer b) hs rs)\<rparr>"
proof (induction n arbitrary: b rs)
  case 0
  then show ?case by simp
next
  case (Suc n)
  from Suc.prems obtain msg b1 rs1 where
    s: "RecvDirect gob b = (Inr msg, b1)" and r: "recv_all gob b1 n = (Inr rs1, b')"
    and rs: "rs = msg # rs1"
    by (auto split: prod.splits sum.splits)
  from s obtain h pt c rest dec where
    w: "inq (socket b) =
       h # Data msg # keyed (inMacer b) (written (inMacer b) @ h @ Data msg) # inq (socket b1)"
    and x: "XORKeyStream (inCipher b) h = (pt, c)"
    and d: "Decode gob (inCoder b) (inBuffer b @ pt) = (Inr (Head msg), rest, dec)"
    and m: "inMacer b1 = (inMacer b)\<lparr>written := written (inMacer b) @ h @ Data msg\<rparr>"
    and f: "inCoder b1 = dec" "inCipher b1 = c" "inBuffer b1 = rest"
    by (rule RecvDirect_taken)
  from Suc.IH[OF r] obtain hs where
    hs: "length hs = n" "length rs1 = n"
      "inq (socket b1) = taken_frames (inMacer b1) hs rs1 @ inq (socket b')"
      "read_heads gob dec c rest hs = map (\<lambda>r. Inr (Head r)) rs1"
      "inMacer b' = (inMacer b1)\<lparr>written := written (inMacer b1) @
         mac_input (taken_frames (inMacer b1) hs rs1)\<rparr>"
    by (auto simp: f)
  have "length (h # hs) = Suc n" "length rs = Suc n" by (simp_all add: hs rs)
  moreover have "inq (socket b) = taken_frames (inMacer b) (h # hs) rs @ inq (socket b')"
    by (simp add: rs w hs(3) m)
  moreover have "read_heads gob (inCoder b) (inCipher b) (inBuffer b) (h # hs) =
      map (\<lambda>r. Inr (Head r)) rs"
    by (simp add: rs x d hs(4))
  moreover have "inMacer b' = (inMacer b)\<lparr>written := written (inMacer b) @
       mac_input (taken_frames (inMacer b) (h # hs) rs)\<rparr>"
    by (simp add: rs hs(5) m)
  ultimately show ?case by blast
qed

lemma SendDirect_mac_grows:
  "\<exists>x. outMacer (snd (SendDirect gob l msg)) = (outMacer l)\<lparr>written := written (outMacer l) @ x\<rparr>"
proof (cases "\<not> Secure msg \<and> length (Data msg) > 0")
  case True
  then have "outMacer (snd (SendDirect gob l msg)) = (outMacer l)\<lparr>written := written (outMacer l) @ []\<rparr>"
    by (simp add: SendDirect_def)
  then show ?thesis by (rule exI)
next
  case False
  obtain err out enc where enc: "Encode gob (outCoder l) (Head msg) = (err, out, enc)"
    by (cases "Encode gob (outCoder l) (Head msg)") auto
  obtain ct c where x: "XORKeyStream (outCipher l) (outBuffer l @ out) = (ct, c)"
    by (cases "XORKeyStream (outCipher l) (outBuffer l @ out)") auto
  show ?thesis
  proof (cases err)
    case (Some e)
    with False enc have
      "outMacer (snd (SendDirect gob l msg)) = (outMacer l)\<lparr>written := written (outMacer l) @ []\<rparr>"
      by (simp add: SendDirect_def)
    then show ?thesis by (rule exI)
  next
    case None
    with False enc x have
      "outMacer (snd (SendDirect gob l msg)) =
         (outMacer l)\<lparr>written := written (outMacer l) @ (ct @ Data msg)\<rparr>"
      by (simp add: SendDirect_def Let_def mac_Write_def split: prod.splits option.splits)
    then show ?thesis by (rule exI)
  qed
qed

lemma SendDirect_inMacer: "inMacer (snd (SendDirect gob l msg)) = inMacer l"
  by (simp add: SendDirect_def Let_def split: prod.splits option.splits)

lemma RecvDirect_outMacer: "outMacer (snd (RecvDirect gob l)) = outMacer l"
  by (simp add: RecvDirect_def Let_def split: prod.splits sum.splits)

lemma RecvDirect_mac_grows:
  "\<exists>x. inMacer (snd (RecvDirect gob l)) = (inMacer l)\<lparr>written := written (inMacer l) @ x\<rparr>"
proof -
  have "inMacer (snd (RecvDirect gob l)) = (inMacer l)\<lparr>written := written (inMacer l) @ []\<rparr> \<or>
        (\<exists>h d. inMacer (snd (RecvDirect gob l)) =
           (inMacer l)\<lparr>written := written (inMacer l) @ (h @ d)\<rparr>)"
    by (auto simp: RecvDirect_def Let_def mac_Write_def split: prod.splits sum.splits)
  then show ?thesis by blast
qed


lemma written_grows_trans:
  assumes "m1 = m\<lparr>written := written m @ x\<rparr>" and "m2 = m1\<lparr>written := written m1 @ y\<rparr>"
  shows "m2 = m\<lparr>written := written m @ (x @ y)\<rparr>"
  using assms by simp

lemma send_all_mac_grows:
  "\<exists>x. outMacer (snd (send_all gob a msgs)) = (outMacer a)\<lparr>written := written (outMacer a) @ x\<rparr>"
proof (induction msgs arbitrary: a)
  case Nil
  have "outMacer (snd (send_all gob a [])) = (outMacer a)\<lparr>written := written (outMacer a) @ []\<rparr>"
    by simp
  then show ?case by (rule exI)
next
  case (Cons msg msgs)
  obtain err a1 where s: "SendDirect gob a msg = (err, a1)"
    by (cases "SendDirect gob a msg") auto
  from SendDirect_mac_grows[of gob a msg] s obtain x where
    x: "outMacer a1 = (outMacer a)\<lparr>written := written (outMacer a) @ x\<rparr>" by auto
  show ?case
  proof (cases err)
    case (Some e)
    with s x show ?thesis by auto
  next
    case None
    from Cons[of a1] obtain y where
      "outMacer (snd (send_all gob a1 msgs)) = (outMacer a1)\<lparr>written := written (outMacer a1) @ y\<rparr>"
      by blast
    from written_grows_trans[OF x this] None s show ?thesis by auto
  qed
qed

lemma recv_all_mac_grows:
  "\<exists>x. inMacer (snd (recv_all gob b n)) = (inMacer b)\<lparr>written := written (inMacer b) @ x\<rparr>"
proof (induction n arbitrary: b)
  case 0
  have "inMacer (snd (recv_all gob b 0)) = (inMacer b)\<lparr>written := written (inMacer b) @ []\<rparr>"
    by simp
  then show ?case by (rule exI)
next
  case (Suc n)
  obtain res b1 where s: "RecvDirect gob b = (res, b1)"
    by (cases "RecvDirect gob b") auto
  from RecvDirect_mac_grows[of gob b] s obtain x where
    x: "inMacer b1 = (inMacer b)\<lparr>written := written (inMacer b) @ x\<rparr>" by auto
  show ?case
  proof (cases res)
    case (Inl e)
    with s x show ?thesis by auto
  next
    case (Inr msg)
    from Suc[of b1] obtain y where
      y: "inMacer (snd (recv_all gob b1 n)) = (inMacer b1)\<lparr>written := written (inMacer b1) @ y\<rparr>"
      by blast
    have "inMacer (snd (recv_all gob b (Suc n))) = inMacer (snd (recv_all gob b1 n))"
      using s Inr by (simp split: prod.splits sum.splits)
    with written_grows_trans[OF x y] show ?thesis by auto
  qed
qed

text \<open>
  C3: neither \<^verbatim>\<open>SendDirect\<close> nor \<^verbatim>\<open>RecvDirect\<close> ever resets a MAC. On every return,
  with or without an error, and after every run of calls however it ends, the MAC of the
  direction holds what it held before followed by what the call wrote, and the MAC of the
  other direction is untouched. After a run of messages sent without error (nothing
  waiting in the transport before), the wire holds for each message its encrypted encoded
  header, its payload and a tag, the tag of message n being the digest over the encrypted
  headers and payloads of messages 1 to n, after all that was written before; the MAC
  has grown by exactly those bytes and the outbound buffer is empty again. A run of
  receives that returned its messages took such frames: the payloads are those of the
  messages returned, the headers returned are the header frames decrypted and decoded,
  and each tag accepted is the digest over the header frames and payloads so far.
\<close>

theorem mac_never_reset:
  "(\<exists>x. outMacer (snd (SendDirect gob l msg)) = (outMacer l)\<lparr>written := written (outMacer l) @ x\<rparr>) \<and>
   inMacer (snd (SendDirect gob l msg)) = inMacer l \<and>
   (\<exists>x. inMacer (snd (RecvDirect gob l)) = (inMacer l)\<lparr>written := written (inMacer l) @ x\<rparr>) \<and>
   outMacer (snd (RecvDirect gob l)) = outMacer l \<and>
   (\<exists>x. outMacer (snd (send_all gob a msgs)) = (outMacer a)\<lparr>written := written (outMacer a) @ x\<rparr>) \<and>
   (\<exists>x. inMacer (snd (recv_all gob b n)) = (inMacer b)\<lparr>written := written (inMacer b) @ x\<rparr>) \<and>
   (send_all gob a msgs = (None, a') \<and> outq (socket a) = [] \<longrightarrow>
     (\<exists>fs. fs = run_frames gob (outCoder a) (outCipher a) (outBuffer a) (outMacer a) msgs \<and>
        wire (socket a') = wire (socket a) @ fs \<and> length fs = 3 * length msgs \<and>
        mac_chain (keyed (outMacer a)) (written (outMacer a)) fs \<and>
        outMacer a' = (outMacer a)\<lparr>written := written (outMacer a) @ mac_input fs\<rparr> \<and>
        (msgs \<noteq> [] \<longrightarrow> outBuffer a' = []))) \<and>
   (recv_all gob b n = (Inr rs, b') \<longrightarrow>
     (\<exists>hs fs. length hs = n \<and> length rs = n \<and>
        read_heads gob (inCoder b) (inCipher b) (inBuffer b) hs = map (\<lambda>r. Inr (Head r)) rs \<and>
        fs = taken_frames (inMacer b) hs rs \<and>
        inq (socket b) = fs @ inq (socket b') \<and>
        mac_chain (keyed (inMacer b)) (written (inMacer b)) fs \<and>
        inMacer b' = (inMacer b)\<lparr>written := written (inMacer b) @ mac_input fs\<rparr>))"
proof (intro conjI impI)
  show "\<exists>x. outMacer (snd (SendDirect gob l msg)) = (outMacer l)\<lparr>written := written (outMacer l) @ x\<rparr>"
    by (rule SendDirect_mac_grows)
  show "inMacer (snd (SendDirect gob l msg)) = inMacer l" by (rule SendDirect_inMacer)
  show "\<exists>x. inMacer (snd (RecvDirect gob l)) = (inMacer l)\<lparr>written := written (inMacer l) @ x\<rparr>"
    by (rule RecvDirect_mac_grows)
  show "outMacer (snd (RecvDirect gob l)) = outMacer l" by (rule RecvDirect_outMacer)
  show "\<exists>x. outMacer (snd (send_all gob a msgs)) = (outMacer a)\<lparr>written := written (outMacer a) @ x\<rparr>"
    by (rule send_all_mac_grows)
  show "\<exists>x. inMacer (snd (recv_all gob b n)) = (inMacer b)\<lparr>written := written (inMacer b) @ x\<rparr>"
    by (rule recv_all_mac_grows)
next
  assume "send_all gob a msgs = (None, a') \<and> outq (socket a) = []"
  then have "wire (socket a') = wire (socket a) @
       run_frames gob (outCoder a) (outCipher a) (outBuffer a) (outMacer a) msgs \<and>
     outMacer a' = (outMacer a)\<lparr>written := written (outMacer a) @
       mac_input (run_frames gob (outCoder a) (outCipher a) (outBuffer a) (outMacer a) msgs)\<rparr> \<and>
     (msgs \<noteq> [] \<longrightarrow> outBuffer a' = [])"
    by (intro send_all_frames) simp_all
  then show "\<exists>fs. fs = run_frames gob (outCoder a) (outCipher a) (outBuffer a) (outMacer a) msgs \<and>
        wire (socket a') = wire (socket a) @ fs \<and> length fs = 3 * length msgs \<and>
        mac_chain (keyed (outMacer a)) (written (outMacer a)) fs \<and>
        outMacer a' = (outMacer a)\<lparr>written := written (outMacer a) @ mac_input fs\<rparr> \<and>
        (msgs \<noteq> [] \<longrightarrow> outBuffer a' = [])"
    by (simp add: length_run_frames mac_chain_run_frames)
next
  assume "recv_all gob b n = (Inr rs, b')"
  from recv_all_frames[OF this] obtain hs where
    hs: "length hs = n" "length rs = n"
      "inq (socket b) = taken_frames (inMacer b) hs rs @ inq (socket b')"
      "read_heads gob (inCoder b) (inCipher b) (inBuffer b) hs = map (\<lambda>r. Inr (Head r)) rs"
      "inMacer b' = (inMacer b)\<lparr>written := written (inMacer b) @
         mac_input (taken_frames (inMacer b) hs rs)\<rparr>"
    by blast
  show "\<exists>hs fs. length hs = n \<and> length rs = n \<and>
        read_heads gob (inCoder b) (inCipher b) (inBuffer b) hs = map (\<lambda>r. Inr (Head r)) rs \<and>
        fs = taken_frames (inMacer b) hs rs \<and>
        inq (socket b) = fs @ inq (socket b') \<and>
        mac_chain (keyed (inMacer b)) (written (inMacer b)) fs \<and>
        inMacer b' = (inMacer b)\<lparr>written := written (inMacer b) @ mac_input fs\<rparr>"
    apply (rule exI[of _ hs])
    apply (rule exI[of _ "taken_frames (inMacer b) hs rs"])
    using hs apply (simp add: mac_chain_taken_frames)
    done
qed

lemma flush_pending_ok:
  "send_all gob l pending = (None, l1) \<Longrightarrow> flush_pending gob l pending = (None, l1, pending)"
proof (induction pending arbitrary: l)
  case Nil
  then show ?case by simp
next
  case (Cons msg pending)
  from Cons.prems obtain l2 where
    s: "SendDirect gob l msg = (None, l2)" and r: "send_all gob l2 pending = (None, l1)"
    by (auto split: prod.splits option.splits)
  from Cons.IH[OF r] s show ?case by simp
qed

lemma send_all_append:
  "send_all gob l (xs @ ys) = (None, l2) \<Longrightarrow>
   \<exists>l1. send_all gob l xs = (None, l1) \<and> send_all gob l1 ys = (None, l2)"
proof (induction xs arbitrary: l)
  case Nil
  then show ?case by simp
next
  case (Cons x xs)
  from Cons.prems obtain l' where
    s: "SendDirect gob l x = (None, l')" and r: "send_all gob l' (xs @ ys) = (None, l2)"
    by (auto split: prod.splits option.splits)
  from Cons.IH[OF r] s show ?case by simp
qed

lemma sender_main_loop:
  "send_all gob l msgs = (None, l1) \<Longrightarrow>
   sender gob zero l (map Msg msgs @ Quit # evs) pending =
     (case sender_quit gob zero l1 pending of (errv, l2, sent) \<Rightarrow> Some (errv, l2, msgs @ sent))"
proof (induction msgs arbitrary: l)
  case Nil
  then show ?case by (simp split: prod.splits)
next
  case (Cons msg msgs)
  from Cons.prems obtain l' where
    s: "SendDirect gob l msg = (None, l')" and r: "send_all gob l' msgs = (None, l1)"
    by (auto split: prod.splits option.splits)
  from Cons.IH[OF r] s show ?case by (simp split: prod.splits)
qed

lemma sender_quit_error:
  assumes "SendDirect gob l msg = (Some e, l1)"
  shows "sender_quit gob zero l (msg # pending) = (Some e, l1, [msg])"
  using assms by (simp add: sender_quit_def)

text \<open>
  C6: the sender worker that handles the messages \<open>msgs\<close>, then receives the quit request
  and finds \<open>pending\<close> in the channel, no \<^verbatim>\<open>SendDirect\<close> of these failing, has called
  \<^verbatim>\<open>SendDirect\<close> on \<open>msgs\<close>, on \<open>pending\<close> in order, and last on one message whose
  \<^verbatim>\<open>Meta\<close> is the close packet and whose payload is empty; it reports the result of that
  last call.
\<close>

theorem sender_graceful_close:
  assumes "send_all gob l (msgs @ pending) = (None, l1)"
  shows "sender gob zero l (map Msg msgs @ Quit # evs) pending =
           Some (fst (SendDirect gob l1 (closeMessage zero)),
                 snd (SendDirect gob l1 (closeMessage zero)),
                 msgs @ pending @ [closeMessage zero]) \<and>
         Meta (Head (closeMessage zero)) = ClosePacket \<and> Data (closeMessage zero) = []"
proof -
  from send_all_append[OF assms] obtain l0 where
    a: "send_all gob l msgs = (None, l0)" and b: "send_all gob l0 pending = (None, l1)"
    by blast
  have "sender_quit gob zero l0 pending =
          (fst (SendDirect gob l1 (closeMessage zero)), snd (SendDirect gob l1 (closeMessage zero)),
           pending @ [closeMessage zero])"
    by (simp add: sender_quit_def flush_pending_ok[OF b] split: prod.splits)
  then show ?thesis
    by (simp add: sender_main_loop[OF a] closeMessage_def)
qed

lemma XORKeyStream_involution:
  assumes "XORKeyStream c src = (ct, c')"
  shows "XORKeyStream c ct = (src, c')"
proof -
  from assms have ct: "ct = map (\<lambda>i. xor (src ! i) (keystream c (pos c + i))) [0..<length src]"
    and c': "c' = c\<lparr>pos := pos c + length src\<rparr>"
    by (simp_all add: XORKeyStream_def)
  have len: "length ct = length src" by (simp add: ct)
  have "map (\<lambda>i. xor (ct ! i) (keystream c (pos c + i))) [0..<length ct] = src"
    by (rule nth_equalityI) (simp_all add: len, simp add: ct xor.assoc)
  then show ?thesis by (simp add: XORKeyStream_def len c')
qed

lemma next_fault_none: "faults s = [] \<Longrightarrow> next_fault s = (None, s)"
  by (simp add: next_fault_def)

lemma SendDirect_reliable:
  assumes f: "faults (socket l) = []" and sec: "Secure msg \<or> Data msg = []"
    and enc: "Encode gob (outCoder l) (Head msg) = (None, out, enc)"
    and x: "XORKeyStream (outCipher l) (outBuffer l @ out) = (ct, c)"
  shows "SendDirect gob l msg =
    (None, l\<lparr>outCoder := enc, outBuffer := [], outCipher := c,
             outMacer := (outMacer l)\<lparr>written := written (outMacer l) @ ct @ Data msg\<rparr>,
             socket := (socket l)\<lparr>wire := wire (socket l) @ outq (socket l) @
                 [ct, Data msg, keyed (outMacer l) (written (outMacer l) @ ct @ Data msg)],
               outq := []\<rparr>\<rparr>)"
  using sec
  by (auto simp: SendDirect_def enc x Let_def stream_Send_def stream_Flush_def next_fault_none f
      mac_Write_def mac_Sum_def)

lemma RecvDirect_reliable:
  assumes f: "faults (socket l) = []" and q: "inq (socket l) = h # d # t # rest"
    and t: "t = keyed (inMacer l) (written (inMacer l) @ h @ d)"
    and x: "XORKeyStream (inCipher l) h = (pt, c)"
    and dec: "Decode gob (inCoder l) (inBuffer l @ pt) = (Inr hv, left, dc)"
  shows "RecvDirect gob l =
    (Inr \<lparr>Head = hv, Data = d, secure = True\<rparr>,
     l\<lparr>socket := (socket l)\<lparr>inq := rest\<rparr>, inHeadBuf := pt, inMacBuf := t,
       inMacer := (inMacer l)\<lparr>written := written (inMacer l) @ h @ d\<rparr>,
       inCipher := c, inBuffer := left, inCoder := dc\<rparr>)"
  by (simp add: RecvDirect_def stream_Recv_def next_fault_none f q Let_def bytes_Equal_iff
      mac_Write_def mac_Sum_def t x dec KnownSecure_def)

lemma round_trip_aux:
  assumes codec: "\<And>e d h. R e d \<Longrightarrow>
      \<exists>out e' d'. Encode gob e h = (None, out, e') \<and> Decode gob d out = (Inr h, [], d') \<and> R e' d'"
  shows "\<forall>m \<in> set msgs. Secure m \<or> Data m = [] \<Longrightarrow>
    faults (socket a) = [] \<Longrightarrow> outq (socket a) = [] \<Longrightarrow> outBuffer a = [] \<Longrightarrow>
    faults (socket b) = [] \<Longrightarrow> inBuffer b = [] \<Longrightarrow>
    inCipher b = outCipher a \<Longrightarrow> inMacer b = outMacer a \<Longrightarrow> R (outCoder a) (inCoder b) \<Longrightarrow>
    \<exists>a' fs b'. send_all gob a msgs = (None, a') \<and> wire (socket a') = wire (socket a) @ fs \<and>
      recv_all gob (b\<lparr>socket := (socket b)\<lparr>inq := fs\<rparr>\<rparr>) (length msgs) =
        (Inr (map KnownSecure msgs), b')"
proof (induction msgs arbitrary: a b)
  case Nil
  then show ?case by simp
next
  case (Cons msg msgs)
  from codec[OF Cons.prems(9), of "Head msg"] obtain out e' d' where
    enc: "Encode gob (outCoder a) (Head msg) = (None, out, e')"
    and dec: "Decode gob (inCoder b) out = (Inr (Head msg), [], d')" and R: "R e' d'"
    by blast
  obtain ct c where x: "XORKeyStream (outCipher a) out = (ct, c)"
    by (cases "XORKeyStream (outCipher a) out") auto
  let ?t = "keyed (outMacer a) (written (outMacer a) @ ct @ Data msg)"
  let ?a1 = "a\<lparr>outCoder := e', outBuffer := [], outCipher := c,
             outMacer := (outMacer a)\<lparr>written := written (outMacer a) @ ct @ Data msg\<rparr>,
             socket := (socket a)\<lparr>wire := wire (socket a) @ outq (socket a) @ [ct, Data msg, ?t],
               outq := []\<rparr>\<rparr>"
  have sec: "Secure msg \<or> Data msg = []" using Cons.prems(1) by simp
  have s: "SendDirect gob a msg = (None, ?a1)"
    using x by (intro SendDirect_reliable[OF Cons.prems(2) sec enc]) (simp add: Cons.prems(4))
  let ?b1 = "b\<lparr>inHeadBuf := out, inMacBuf := ?t,
       inMacer := (inMacer b)\<lparr>written := written (inMacer b) @ ct @ Data msg\<rparr>,
       inCipher := c, inBuffer := [], inCoder := d'\<rparr>"
  have "\<exists>a' fs b'. send_all gob ?a1 msgs = (None, a') \<and> wire (socket a') = wire (socket ?a1) @ fs \<and>
      recv_all gob (?b1\<lparr>socket := (socket ?b1)\<lparr>inq := fs\<rparr>\<rparr>) (length msgs) =
        (Inr (map KnownSecure msgs), b')"
    using Cons.prems R by (intro Cons.IH) simp_all
  then obtain a' fs b' where
    r: "send_all gob ?a1 msgs = (None, a')" and w: "wire (socket a') = wire (socket ?a1) @ fs"
    and rv: "recv_all gob (?b1\<lparr>socket := (socket ?b1)\<lparr>inq := fs\<rparr>\<rparr>) (length msgs) =
        (Inr (map KnownSecure msgs), b')"
    by blast
  let ?fs = "[ct, Data msg, ?t] @ fs"
  let ?b0 = "b\<lparr>socket := (socket b)\<lparr>inq := ?fs\<rparr>\<rparr>"
  have x': "XORKeyStream (inCipher ?b0) ct = (out, c)"
    using XORKeyStream_involution[OF x] by (simp add: Cons.prems(7))
  have "RecvDirect gob ?b0 =
    (Inr \<lparr>Head = Head msg, Data = Data msg, secure = True\<rparr>,
     ?b0\<lparr>socket := (socket ?b0)\<lparr>inq := fs\<rparr>, inHeadBuf := out, inMacBuf := ?t,
       inMacer := (inMacer ?b0)\<lparr>written := written (inMacer ?b0) @ ct @ Data msg\<rparr>,
       inCipher := c, inBuffer := [], inCoder := d'\<rparr>)"
    using RecvDirect_reliable[where l = ?b0 and h = ct and d = "Data msg" and t = ?t
        and rest = fs and pt = out and c = c and gob = gob and hv = "Head msg"
        and left = "[]" and dc = d'] x' dec Cons.prems(5,6,8)
    by simp
  then have rd: "RecvDirect gob ?b0 = (Inr (KnownSecure msg), ?b1\<lparr>socket := (socket ?b1)\<lparr>inq := fs\<rparr>\<rparr>)"
    by (simp add: KnownSecure_def Cons.prems(8))
  have "send_all gob a (msg # msgs) = (None, a')" using s r by simp
  moreover have "wire (socket a') = wire (socket a) @ ?fs"
    using w by (simp add: Cons.prems(3))
  moreover have "recv_all gob ?b0 (length (msg # msgs)) = (Inr (map KnownSecure (msg # msgs)), b')"
    using rd rv by simp
  ultimately show ?case by blast
qed

text \<open>
  C1: two links whose states are paired (the inbound cipher stream and MAC of \<open>b\<close> are
  the outbound ones of \<open>a\<close>, and the coders are in step), over a transport that carries
  the frames of \<open>a\<close> to \<open>b\<close> and does not fail. Every run of messages, each secure or
  with an empty payload, is sent without error, and as many receives at \<open>b\<close> return the
  same headers and payloads in the same order, each marked secure. The codec is assumed
  symmetric: what the encoder writes for a header, the decoder in step with it reads
  back as that header, using up the bytes, and the two stay in step.
\<close>

theorem link_round_trip:
  assumes codec: "\<And>e d h. R e d \<Longrightarrow>
      \<exists>out e' d'. Encode gob e h = (None, out, e') \<and> Decode gob d out = (Inr h, [], d') \<and> R e' d'"
    and msgs: "\<forall>m \<in> set msgs. Secure m \<or> Data m = []"
    and a: "faults (socket a) = []" "outq (socket a) = []" "wire (socket a) = []" "outBuffer a = []"
    and b: "faults (socket b) = []" "inq (socket b) = []" "inBuffer b = []"
    and paired: "inCipher b = outCipher a" "inMacer b = outMacer a" "R (outCoder a) (inCoder b)"
  shows "\<exists>a' b'. send_all gob a msgs = (None, a') \<and>
           recv_all gob (deliver (wire (socket a')) b) (length msgs) =
             (Inr (map KnownSecure msgs), b')"
proof -
  from round_trip_aux[of R gob msgs a b, OF codec msgs a(1,2,4) b(1,3) paired]
  obtain a' fs b' where "send_all gob a msgs = (None, a')" "wire (socket a') = wire (socket a) @ fs"
    "recv_all gob (b\<lparr>socket := (socket b)\<lparr>inq := fs\<rparr>\<rparr>) (length msgs) =
        (Inr (map KnownSecure msgs), b')"
    by blast
  then show ?thesis by (auto simp: deliver_def a(3) b(2))
qed

lemma makeHalfDuplex_Some:
  assumes "makeHalfDuplex cfg hkdf = Some ((c, m), rest)"
  shows "\<exists>key block iv salt.
      hkdf = key @ iv @ salt @ rest \<and>
      length key = SessionCipherBits cfg div 8 \<and> SessionCipher cfg key = Inr block \<and>
      length iv = BlockSize cfg block \<and> length salt = SessionHashSize cfg \<and>
      c = \<lparr>keystream = NewCTR cfg block iv, pos = 0\<rparr> \<and>
      m = \<lparr>keyed = hmac_New cfg salt, written = []\<rparr>"
proof -
  let ?K = "SessionCipherBits cfg div 8"
  from assms obtain block where
    k: "?K \<le> length hkdf" and b: "SessionCipher cfg (take ?K hkdf) = Inr block"
    by (auto simp: makeHalfDuplex_def ReadFull_def split: if_splits sum.splits Option.bind_splits)
  let ?B = "BlockSize cfg block" and ?H = "SessionHashSize cfg"
  let ?h1 = "drop ?K hkdf"
  let ?h2 = "drop ?B ?h1"
  from assms k b have
    r: "?B \<le> length ?h1" "?H \<le> length ?h2" "rest = drop ?H ?h2"
      "c = \<lparr>keystream = NewCTR cfg block (take ?B ?h1), pos = 0\<rparr>"
      "m = \<lparr>keyed = hmac_New cfg (take ?H ?h2), written = []\<rparr>"
    by (auto simp: makeHalfDuplex_def ReadFull_def Let_def split: if_splits Option.bind_splits)
  have "take ?H ?h2 @ rest = ?h2" unfolding r(3) by (rule append_take_drop_id)
  then have "take ?B ?h1 @ take ?H ?h2 @ rest = ?h1" by (simp only: append_take_drop_id)
  then have "take ?K hkdf @ take ?B ?h1 @ take ?H ?h2 @ rest = hkdf"
    by (simp only: append_take_drop_id)
  then have d: "hkdf = take ?K hkdf @ take ?B ?h1 @ take ?H ?h2 @ rest" by (rule sym)
  have len: "length (take ?K hkdf) = ?K" "length (take ?B ?h1) = ?B" "length (take ?H ?h2) = ?H"
    using k r(1,2) by simp_all
  show ?thesis
    apply (rule exI[of _ "take ?K hkdf"])
    apply (rule exI[of _ block])
    apply (rule exI[of _ "take ?B ?h1"])
    apply (rule exI[of _ "take ?H ?h2"])
    using d len b r(4,5) apply (intro conjI)
          apply assumption+
    done
qed

text \<open>
  C5: \<^verbatim>\<open>New\<close> reads two triples (key, IV, MAC salt) off the key-derivation stream, one
  after the other. The server's outbound cipher stream and MAC are made from the first
  and its inbound ones from the second; for the client it is the other way round, so
  the inbound state of each peer is the outbound state of the other.
\<close>

theorem new_link_roles:
  assumes S: "New_Link cfg gob conn hkdf True = Some (ls, rs)"
    and C: "New_Link cfg gob' conn' hkdf False = Some (lc, rc)"
  shows "\<exists>k1 b1 iv1 s1 k2 b2 iv2 s2.
      hkdf = k1 @ iv1 @ s1 @ k2 @ iv2 @ s2 @ rs \<and> rc = rs \<and>
      length k1 = SessionCipherBits cfg div 8 \<and> SessionCipher cfg k1 = Inr b1 \<and>
      length iv1 = BlockSize cfg b1 \<and> length s1 = SessionHashSize cfg \<and>
      length k2 = SessionCipherBits cfg div 8 \<and> SessionCipher cfg k2 = Inr b2 \<and>
      length iv2 = BlockSize cfg b2 \<and> length s2 = SessionHashSize cfg \<and>
      outCipher ls = \<lparr>keystream = NewCTR cfg b1 iv1, pos = 0\<rparr> \<and>
      outMacer ls = \<lparr>keyed = hmac_New cfg s1, written = []\<rparr> \<and>
      inCipher ls = \<lparr>keystream = NewCTR cfg b2 iv2, pos = 0\<rparr> \<and>
      inMacer ls = \<lparr>keyed = hmac_New cfg s2, written = []\<rparr> \<and>
      inCipher lc = outCipher ls \<and> inMacer lc = outMacer ls \<and>
      outCipher lc = inCipher ls \<and> outMacer lc = inMacer ls"
proof -
  from S obtain sc sm h1 cc cm where
    m1: "makeHalfDuplex cfg hkdf = Some ((sc, sm), h1)"
    and m2: "makeHalfDuplex cfg h1 = Some ((cc, cm), rs)"
    and ls: "outCipher ls = sc" "outMacer ls = sm" "inCipher ls = cc" "inMacer ls = cm"
    by (auto simp: New_Link_def Let_def split: Option.bind_splits)
  from C m1 m2 have
    lc: "inCipher lc = sc" "inMacer lc = sm" "outCipher lc = cc" "outMacer lc = cm" "rc = rs"
    by (auto simp: New_Link_def Let_def split: Option.bind_splits)
  from makeHalfDuplex_Some[OF m1] obtain k1 b1 iv1 s1 where
    1: "hkdf = k1 @ iv1 @ s1 @ h1" "length k1 = SessionCipherBits cfg div 8"
      "SessionCipher cfg k1 = Inr b1" "length iv1 = BlockSize cfg b1"
      "length s1 = SessionHashSize cfg" "sc = \<lparr>keystream = NewCTR cfg b1 iv1, pos = 0\<rparr>"
      "sm = \<lparr>keyed = hmac_New cfg s1, written = []\<rparr>"
    by blast
  from makeHalfDuplex_Some[OF m2] obtain k2 b2 iv2 s2 where
    2: "h1 = k2 @ iv2 @ s2 @ rs" "length k2 = SessionCipherBits cfg div 8"
      "SessionCipher cfg k2 = Inr b2" "length iv2 = BlockSize cfg b2"
      "length s2 = SessionHashSize cfg" "cc = \<lparr>keystream = NewCTR cfg b2 iv2, pos = 0\<rparr>"
      "cm = \<lparr>keyed = hmac_New cfg s2, written = []\<rparr>"
    by blast
  have d: "hkdf = k1 @ iv1 @ s1 @ k2 @ iv2 @ s2 @ rs" using 1(1) 2(1) by simp
  show ?thesis
    apply (rule exI[of _ k1])
    apply (rule exI[of _ b1])
    apply (rule exI[of _ iv1])
    apply (rule exI[of _ s1])
    apply (rule exI[of _ k2])
    apply (rule exI[of _ b2])
    apply (rule exI[of _ iv2])
    apply (rule exI[of _ s2])
    using d 1(2-5) 2(2-5) apply (simp add: ls lc 1(6,7) 2(6,7))
    done
qed

subsection \<open>Concrete instances\<close>

lemma example_codec:
  "\<exists>out e' d'. Encode example_gob e h = (None, out, e') \<and>
     Decode example_gob d out = (Inr h, [], d') \<and> True"
  by (cases h; cases "Meta h") (simp_all add: example_gob_def)

lemma example_msgs_ok: "\<forall>m \<in> set example_msgs. Secure m \<or> Data m = []"
  by (simp add: example_msgs_def Secure_def)

lemma example_link_fields:
  "faults (socket (example_link s)) = []" "outq (socket (example_link s)) = []"
  "wire (socket (example_link s)) = []" "inq (socket (example_link s)) = []"
  "outBuffer (example_link s) = []" "inBuffer (example_link s) = []"
  "inCipher (example_link False) = outCipher (example_link True)"
  "inMacer (example_link False) = outMacer (example_link True)"
  by (simp_all add: example_link_def example_stream_def)

lemma example_exchange:
  "\<exists>a' fs b'. send_all example_gob (example_link True) example_msgs = (None, a') \<and>
     wire (socket a') = fs \<and>
     recv_all example_gob (deliver fs (example_link False)) (length example_msgs) =
       (Inr (map KnownSecure example_msgs), b')"
proof -
  from round_trip_aux[of "\<lambda>e d. True" example_gob example_msgs "example_link True"
      "example_link False", OF example_codec example_msgs_ok]
  obtain a' fs b' where "send_all example_gob (example_link True) example_msgs = (None, a')"
    "wire (socket a') = wire (socket (example_link True)) @ fs"
    "recv_all example_gob ((example_link False)\<lparr>socket := (socket (example_link False))\<lparr>inq := fs\<rparr>\<rparr>)
       (length example_msgs) = (Inr (map KnownSecure example_msgs), b')"
    by (auto simp: example_link_fields)
  then show ?thesis by (auto simp: deliver_def example_link_fields)
qed

theorem send_unsecured_denied_witness:
  "\<not> Secure example_plain \<and> Data example_plain \<noteq> [] \<and>
   fst (SendDirect example_gob (example_link True) example_plain) =
     Some ''unsecured data, send denied'' \<and>
   socket (snd (SendDirect example_gob (example_link True) example_plain)) =
     socket (example_link True)"
  using send_unsecured_denied[of example_plain example_gob "example_link True"]
  by (simp add: example_plain_def Secure_def)

theorem send_unsecured_atomic_witness:
  "\<not> Secure example_plain \<and> Data example_plain \<noteq> [] \<and>
   snd (SendDirect example_gob (example_link True) example_plain) = example_link True \<and>
   SendDirect example_gob (snd (SendDirect example_gob (example_link True) example_plain))
     (hd example_msgs) = SendDirect example_gob (example_link True) (hd example_msgs)"
  using send_unsecured_atomic[of example_plain example_gob "example_link True" "hd example_msgs"]
  by (simp add: example_plain_def Secure_def)

theorem recv_mac_mismatch_witness:
  "\<exists>l'. RecvDirect example_gob (deliver [[1], [2], [9]] (example_link False)) =
     (Inl ''mac mismatch: have [7], want [9].'', l')"
proof -
  let ?l = "deliver [[1], [2], [9]] (example_link False)"
  let ?s = "\<lambda>q. \<lparr>outq = [], wire = [], inq = q, faults = []\<rparr>"
  have 1: "stream_Recv (socket ?l) = (Inr [1], ?s [[2], [9]])"
    and 2: "stream_Recv (?s [[2], [9]]) = (Inr [2], ?s [[9]])"
    and 3: "stream_Recv (?s [[9]]) = (Inr [9], ?s [])"
    by (simp_all add: deliver_def example_link_def example_stream_def stream_Recv_def
        next_fault_def)
  have 4: "[9] \<noteq> keyed (inMacer ?l) (written (inMacer ?l) @ [1] @ [2])"
    by (simp add: deliver_def example_link_def)
  have 5: "fmt_v (keyed (inMacer ?l) (written (inMacer ?l) @ [1] @ [2])) = ''[7]''"
    "fmt_v [9] = ''[9]''"
    by (simp_all add: deliver_def example_link_def fmt_v_def decimal_def digit_def)
  from recv_mac_mismatch[OF 1 2 3 4, of example_gob] show ?thesis
    unfolding 5 by auto
qed

theorem new_link_roles_witness:
  "\<exists>ls rs lc rc.
     New_Link example_cfg example_gob example_stream example_hkdf True = Some (ls, rs) \<and>
     New_Link example_cfg example_gob example_stream example_hkdf False = Some (lc, rc) \<and>
     rs = [9] \<and> rc = rs \<and>
     inCipher lc = outCipher ls \<and> inMacer lc = outMacer ls \<and>
     outCipher lc = inCipher ls \<and> outMacer lc = inMacer ls"
proof -
  obtain ls rs where S: "New_Link example_cfg example_gob example_stream example_hkdf True = Some (ls, rs)"
    and rs: "rs = [9]"
    by (simp add: New_Link_def makeHalfDuplex_def ReadFull_def example_cfg_def example_hkdf_def)
  obtain lc rc where C: "New_Link example_cfg example_gob example_stream example_hkdf False = Some (lc, rc)"
    by (simp add: New_Link_def makeHalfDuplex_def ReadFull_def example_cfg_def example_hkdf_def)
  from new_link_roles[OF S C] S C rs show ?thesis by blast
qed

theorem mac_never_reset_witness:
  "\<exists>a' fs b'.
     send_all example_gob (example_link True) example_msgs = (None, a') \<and>
     outq (socket (example_link True)) = [] \<and>
     wire (socket a') = wire (socket (example_link True)) @
       run_frames example_gob (outCoder (example_link True)) (outCipher (example_link True))
         (outBuffer (example_link True)) (outMacer (example_link True)) example_msgs \<and>
     outMacer a' = (outMacer (example_link True))
       \<lparr>written := written (outMacer (example_link True)) @
          mac_input (run_frames example_gob (outCoder (example_link True))
            (outCipher (example_link True)) (outBuffer (example_link True))
            (outMacer (example_link True)) example_msgs)\<rparr> \<and>
     recv_all example_gob (deliver fs (example_link False)) (length example_msgs) =
       (Inr (map KnownSecure example_msgs), b') \<and>
     (\<exists>hs. length hs = length example_msgs \<and>
        inq (socket (deliver fs (example_link False))) =
          taken_frames (inMacer (deliver fs (example_link False))) hs
            (map KnownSecure example_msgs) @ inq (socket b') \<and>
        inMacer b' = (inMacer (deliver fs (example_link False)))
          \<lparr>written := written (inMacer (deliver fs (example_link False))) @
             mac_input (taken_frames (inMacer (deliver fs (example_link False))) hs
               (map KnownSecure example_msgs))\<rparr>)"
proof -
  from example_exchange obtain a' fs b' where
    s: "send_all example_gob (example_link True) example_msgs = (None, a')"
    and r: "recv_all example_gob (deliver fs (example_link False)) (length example_msgs) =
       (Inr (map KnownSecure example_msgs), b')"
    by blast
  have q: "outq (socket (example_link True)) = []" by (rule example_link_fields)
  note t = mac_never_reset[where gob = example_gob and a = "example_link True"
      and msgs = example_msgs and a' = a' and b = "deliver fs (example_link False)"
      and n = "length example_msgs" and rs = "map KnownSecure example_msgs" and b' = b'
      and l = "example_link True" and msg = "hd example_msgs"]
  from t s q have 1: "wire (socket a') = wire (socket (example_link True)) @
       run_frames example_gob (outCoder (example_link True)) (outCipher (example_link True))
         (outBuffer (example_link True)) (outMacer (example_link True)) example_msgs \<and>
     outMacer a' = (outMacer (example_link True))
       \<lparr>written := written (outMacer (example_link True)) @
          mac_input (run_frames example_gob (outCoder (example_link True))
            (outCipher (example_link True)) (outBuffer (example_link True))
            (outMacer (example_link True)) example_msgs)\<rparr>"
    by blast
  from t r have 2: "\<exists>hs. length hs = length example_msgs \<and>
        inq (socket (deliver fs (example_link False))) =
          taken_frames (inMacer (deliver fs (example_link False))) hs
            (map KnownSecure example_msgs) @ inq (socket b') \<and>
        inMacer b' = (inMacer (deliver fs (example_link False)))
          \<lparr>written := written (inMacer (deliver fs (example_link False))) @
             mac_input (taken_frames (inMacer (deliver fs (example_link False))) hs
               (map KnownSecure example_msgs))\<rparr>"
    by blast
  from s q 1 r 2 show ?thesis by blast
qed

theorem sender_graceful_close_witness:
  "\<exists>l1. send_all example_gob (example_link True) (take 1 example_msgs @ drop 1 example_msgs) = (None, l1) \<and>
     sender example_gob () (example_link True) (map Msg (take 1 example_msgs) @ Quit # [])
       (drop 1 example_msgs) =
       Some (fst (SendDirect example_gob l1 (closeMessage ())),
             snd (SendDirect example_gob l1 (closeMessage ())),
             take 1 example_msgs @ drop 1 example_msgs @ [closeMessage ()])"
proof -
  from example_exchange obtain l1 where
    s: "send_all example_gob (example_link True) (take 1 example_msgs @ drop 1 example_msgs) = (None, l1)"
    by auto
  from sender_graceful_close[OF s, of "()" "[]"] s show ?thesis by blast
qed

theorem link_round_trip_witness:
  "\<exists>a' b'. send_all example_gob (example_link True) example_msgs = (None, a') \<and>
     recv_all example_gob (deliver (wire (socket a')) (example_link False)) (length example_msgs) =
       (Inr (map KnownSecure example_msgs), b')"
  by (rule link_round_trip[of "\<lambda>e d. True" example_gob example_msgs "example_link True"
        "example_link False", OF example_codec example_msgs_ok])
     (simp_all add: example_link_fields)

end
